theory Spec2Isabelle
  imports Main "HOL-Library.Sublist"
begin

section \<open>Data model\<close>

text \<open>
  The types of \<^verbatim>\<open>commandRunner.ts\<close>. Text is a \<open>string\<close>, one \<open>char\<close> per code unit
  (code units below 256). A promise is modelled by how it settles: fulfilled with a value,
  rejected with an error, or never settled.
\<close>

text \<open>\<^verbatim>\<open>depends_on\<close> is a single name or an array of names.\<close>

datatype depends = Single string | Many "string list"

text \<open>
  \<^verbatim>\<open>exitCode\<close> is declared a number; the catch block of \<^verbatim>\<open>runCommand\<close> stores
  \<^verbatim>\<open>error.code || 1\<close> there, which for an error raised by the operating system is a name
  such as \<^verbatim>\<open>ENOENT\<close>.
\<close>

datatype exit_code = ExitNumber int | ExitName string

text \<open>
  The fields of a command that the engine reads. \<^verbatim>\<open>outputs\<close> is an object: here it is the
  list of its keys, in the order of \<^verbatim>\<open>Object.entries\<close>.
\<close>

record CommandConfig =
  name :: string
  command :: string
  image :: "string option"
  cwd :: "string option"
  allow_failure :: bool
  depends_on :: "depends option"
  outputs :: "string list option"
  output_file :: "string option"

record ExecutionResult =
  success :: bool
  "output" :: string
  error :: "string option"
  exitCode :: "exit_code option"

record StageConfig =
  stage_name :: string
  stage_allow_failure :: bool
  stage_parallel :: bool

datatype 'a promise = Fulfilled 'a | Rejected string | NeverSettles

text \<open>The status of a job at the status sink (\<^verbatim>\<open>JobOutputService\<close>).\<close>

datatype job_status = JobRunning | JobSuccess | JobFailed

text \<open>
  What a stage run does, in order, as far as the scheduling is concerned: a call of
  \<^verbatim>\<open>areDependenciesSatisfied\<close> for a command, with the list of executed names it was given
  and its answer; a call of \<^verbatim>\<open>runCommand\<close>; the return of that call, when the name is
  pushed on \<^verbatim>\<open>executedCommands\<close>; a pause in milliseconds.
\<close>

datatype event =
    DependencyCheck string "string list" bool
  | RunCommand string
  | Completed string
  | Pause nat

section \<open>Dependency check\<close>

text \<open>
  \<^verbatim>\<open>areDependenciesSatisfied\<close>: a command with no \<^verbatim>\<open>depends_on\<close> (undefined, or the empty
  string, both falsy) is satisfied; otherwise every dependency must be in
  \<open>executedCommands\<close>.
\<close>

definition areDependenciesSatisfied :: "CommandConfig \<Rightarrow> string list \<Rightarrow> bool" where
  "areDependenciesSatisfied c executedCommands =
     (case depends_on c of
        None \<Rightarrow> True
      | Some (Single d) \<Rightarrow> (if d = [] then True else d \<in> set executedCommands)
      | Some (Many ds) \<Rightarrow> list_all (\<lambda>d. d \<in> set executedCommands) ds)"

section \<open>Stage scheduling\<close>

text \<open>
  \<^verbatim>\<open>runCommand\<close> is a parameter of the scheduler: \<open>exec\<close> gives, for the events so far and
  the command, how the promise of that call settles. Any behaviour of \<^verbatim>\<open>runCommand\<close>
  is some such function.
\<close>

type_synonym runner = "event list \<Rightarrow> CommandConfig \<Rightarrow> ExecutionResult promise"

record stage_state =
  stageSuccess :: bool
  combinedOutput :: string
  executedCommands :: "string list"
  trace :: "event list"

definition log :: "event \<Rightarrow> stage_state \<Rightarrow> stage_state" where
  "log e st = st\<lparr>trace := trace st @ [e]\<rparr>"

definition dependencyError :: "CommandConfig \<Rightarrow> string" where
  \<open>dependencyError c =
     ''Cannot run command "'' @ name c @ ''" because its dependencies have not been executed''\<close>

text \<open>How the body of the sequential loop is left.\<close>

datatype loop_exit = Finished | Break | Return ExecutionResult | Throw string | Hang

text \<open>
  The sequential branch of \<^verbatim>\<open>runStage\<close>: \<^verbatim>\<open>for (const command of commands)\<close>. An
  unsatisfied dependency returns from \<^verbatim>\<open>runStage\<close> at once when the command does not
  allow failure, and continues with the next command when it does. A failing command
  that does not allow failure breaks the loop. The pause of 500 ms follows every command
  that did not break the loop.
\<close>

definition checked :: "CommandConfig \<Rightarrow> string list \<Rightarrow> bool \<Rightarrow> stage_state \<Rightarrow> stage_state" where
  "checked c seen ok st = log (DependencyCheck (name c) seen ok) st"

definition launched :: "CommandConfig \<Rightarrow> string list \<Rightarrow> stage_state \<Rightarrow> stage_state" where
  "launched c seen st = log (RunCommand (name c)) (checked c seen True st)"

text \<open>\<^verbatim>\<open>executedCommands.push(command.name)\<close>, once \<^verbatim>\<open>runCommand\<close> has returned.\<close>

definition pushed :: "CommandConfig \<Rightarrow> stage_state \<Rightarrow> stage_state" where
  "pushed c st = log (Completed (name c)) (st\<lparr>executedCommands := executedCommands st @ [name c]\<rparr>)"

fun sequential_commands ::
  "runner \<Rightarrow> CommandConfig list \<Rightarrow> stage_state \<Rightarrow> loop_exit \<times> stage_state" where
  "sequential_commands exec [] st = (Finished, st)"
| "sequential_commands exec (c # cs) st =
     (if \<not> areDependenciesSatisfied c (executedCommands st) then
        (if \<not> allow_failure c then
           (Return \<lparr>success = False, output = combinedOutput st,
                    error = Some (dependencyError c), exitCode = Some (ExitNumber 1)\<rparr>,
            checked c (executedCommands st) False st)
         else sequential_commands exec cs (checked c (executedCommands st) False st))
      else
        (let st1 = launched c (executedCommands st) st in
         case exec (trace st1) c of
           Rejected e \<Rightarrow> (Throw e, st1)
         | NeverSettles \<Rightarrow> (Hang, st1)
         | Fulfilled result \<Rightarrow>
             (let st2 = pushed c
                    (st1\<lparr>combinedOutput := combinedOutput st1 @ output result @ [CHR 0x0A]\<rparr>) in
              if \<not> success result \<and> \<not> allow_failure c then
                (Break, st2\<lparr>stageSuccess := False\<rparr>)
              else sequential_commands exec cs (log (Pause 500) st2))))"

text \<open>
  The parallel branch: \<^verbatim>\<open>commands.map(async (command, index) => ...)\<close>. Every callback
  runs synchronously up to its \<^verbatim>\<open>await this.runCommand(...)\<close>: while \<^verbatim>\<open>map\<close> runs, each
  command has its dependencies checked and, when they are satisfied, \<^verbatim>\<open>runCommand\<close>
  called. The continuation after the \<^verbatim>\<open>await\<close>, which pushes the name on
  \<^verbatim>\<open>executedCommands\<close>, runs only after \<^verbatim>\<open>map\<close> has returned, when the promise of
  \<^verbatim>\<open>runCommand\<close> has been fulfilled. So the launches come first (\<open>launch_commands\<close>) and
  the continuations second, in the order in which the promises settle
  (\<open>settle_commands\<close>).
\<close>

definition skippedOutput :: "CommandConfig \<Rightarrow> string" where
  "skippedOutput c = ''Command skipped due to unsatisfied dependencies: '' @ name c"

text \<open>
  A callback either returns a result without calling \<^verbatim>\<open>runCommand\<close>, or awaits the
  promise of \<^verbatim>\<open>runCommand\<close>.
\<close>

datatype launch = Refused ExecutionResult | Awaiting "ExecutionResult promise"

fun launch_commands ::
  "runner \<Rightarrow> CommandConfig list \<Rightarrow> stage_state \<Rightarrow> (CommandConfig \<times> launch) list \<times> stage_state" where
  "launch_commands exec [] st = ([], st)"
| "launch_commands exec (c # cs) st =
     (if \<not> areDependenciesSatisfied c (executedCommands st) then
        (let r = (if \<not> allow_failure c then
                    \<lparr>success = False, output = [], error = Some (dependencyError c),
                     exitCode = Some (ExitNumber 1)\<rparr>
                  else
                    \<lparr>success = True, output = skippedOutput c, error = None,
                     exitCode = None\<rparr>);
             rest = launch_commands exec cs (checked c (executedCommands st) False st)
         in ((c, Refused r) # fst rest, snd rest))
      else
        (let st1 = launched c (executedCommands st) st;
             rest = launch_commands exec cs st1
         in ((c, Awaiting (exec (trace st1) c)) # fst rest, snd rest)))"

text \<open>
  The continuation of one callback, after its \<^verbatim>\<open>await\<close>: a fulfilled promise pushes the
  name on \<^verbatim>\<open>executedCommands\<close>; a rejected promise is caught and pushes nothing; a
  callback that returned before calling \<^verbatim>\<open>runCommand\<close>, and one whose promise never
  settles, have no continuation.
\<close>

fun resume :: "CommandConfig \<times> launch \<Rightarrow> stage_state \<Rightarrow> stage_state" where
  "resume (c, Awaiting (Fulfilled result)) st = pushed c st"
| "resume l st = st"

text \<open>
  The continuations run in the order in which the promises of \<^verbatim>\<open>runCommand\<close> settle,
  which the scheduler does not decide: \<open>order\<close> lists the positions of the commands in
  that order. It is a completion order when it lists every position once.
\<close>

definition settle_commands ::
  "(CommandConfig \<times> launch) list \<Rightarrow> nat list \<Rightarrow> stage_state \<Rightarrow> stage_state" where
  "settle_commands launches order st =
     foldl (\<lambda>st i. if i < length launches then resume (launches ! i) st else st) st order"

definition completion_order :: "nat list \<Rightarrow> CommandConfig list \<Rightarrow> bool" where
  "completion_order order commands = (sort order = [0..<length commands])"

text \<open>
  What a callback returns, in declaration order as \<^verbatim>\<open>Promise.all\<close> lists the results: a
  rejected promise is caught and becomes a failed result; a promise that never settles
  gives no result.
\<close>

fun callback_result :: "CommandConfig \<times> launch \<Rightarrow> (string \<times> ExecutionResult) option" where
  "callback_result (c, Refused r) = Some (name c, r)"
| "callback_result (c, Awaiting (Fulfilled result)) = Some (name c, result)"
| "callback_result (c, Awaiting (Rejected e)) =
     Some (name c, \<lparr>success = False, output = [], error = Some e, exitCode = None\<rparr>)"
| "callback_result (c, Awaiting NeverSettles) = None"

text \<open>\<^verbatim>\<open>Promise.all\<close>: all results, when every promise is fulfilled.\<close>

fun all_settled :: "'a option list \<Rightarrow> 'a list option" where
  "all_settled [] = Some []"
| "all_settled (None # rs) = None"
| "all_settled (Some r # rs) = (case all_settled rs of None \<Rightarrow> None | Some xs \<Rightarrow> Some (r # xs))"

text \<open>
  \<^verbatim>\<open>commands.find(c => c.name === result.commandName)?.allow_failure\<close>: the flag of the
  first command of that name.
\<close>

definition allows_failure :: "CommandConfig list \<Rightarrow> string \<Rightarrow> bool" where
  "allows_failure commands n =
     (case find (\<lambda>c. name c = n) commands of None \<Rightarrow> False | Some c \<Rightarrow> allow_failure c)"

fun process_results ::
  "CommandConfig list \<Rightarrow> (string \<times> ExecutionResult) list \<Rightarrow> stage_state \<Rightarrow> stage_state" where
  "process_results commands [] st = st"
| "process_results commands ((n, r) # rs) st =
     process_results commands rs
       (st\<lparr>combinedOutput :=
             combinedOutput st @ [CHR 0x0A] @ ''--- Command: '' @ n @ '' ---'' @ [CHR 0x0A]
               @ output r @ [CHR 0x0A],
           stageSuccess :=
             (if \<not> success r \<and> \<not> allows_failure commands n then False else stageSuccess st)\<rparr>)"

text \<open>
  What a call of \<^verbatim>\<open>runStage\<close> leaves behind: how its promise settles, the variables of
  the run, and the status of the stage's job at the status sink (none without a sink or
  when no job was started).
\<close>

record stage_run =
  settled :: "ExecutionResult promise"
  final :: stage_state
  stageJob :: "job_status option"

definition initial_state :: stage_state where
  "initial_state = \<lparr>stageSuccess = True, combinedOutput = [], executedCommands = [], trace = []\<rparr>"

definition job :: "bool \<Rightarrow> job_status \<Rightarrow> job_status option" where
  "job sink s = (if sink then Some s else None)"

text \<open>The end of \<^verbatim>\<open>runStage\<close>, after the commands have run.\<close>

definition stage_result :: "bool \<Rightarrow> StageConfig \<Rightarrow> stage_state \<Rightarrow> stage_run" where
  "stage_result sink stage st =
     (if \<not> stageSuccess st then
        (if stage_allow_failure stage then
           \<lparr>settled = Fulfilled \<lparr>success = True, output = combinedOutput st, error = None,
                                 exitCode = None\<rparr>,
            final = st, stageJob = job sink JobFailed\<rparr>
         else
           \<lparr>settled = Fulfilled \<lparr>success = False, output = combinedOutput st,
                                 error = Some ''Stage execution failed'', exitCode = None\<rparr>,
            final = st, stageJob = job sink JobFailed\<rparr>)
      else
        \<lparr>settled = Fulfilled \<lparr>success = True, output = combinedOutput st, error = None,
                              exitCode = None\<rparr>,
         final = st, stageJob = job sink JobSuccess\<rparr>)"

text \<open>
  \<^verbatim>\<open>runStage\<close>. The configuration provider is not part of the engine: \<open>found\<close> is what
  \<^verbatim>\<open>findStage\<close> returns and \<open>commands\<close> what \<^verbatim>\<open>getStageCommands\<close> returns. \<open>sink\<close> says
  whether a \<^verbatim>\<open>JobOutputService\<close> is present, and \<open>order\<close> is the order in which the
  promises of a parallel stage settle.
\<close>

definition runStage ::
  "bool \<Rightarrow> runner \<Rightarrow> nat list \<Rightarrow> StageConfig option \<Rightarrow> CommandConfig list \<Rightarrow> string \<Rightarrow>
   stage_run" where
  \<open>runStage sink exec order found commands stageName =
     (case found of
        None \<Rightarrow>
          \<lparr>settled = Fulfilled \<lparr>success = False, output = [],
                                error = Some (''Stage "'' @ stageName @ ''" not found''),
                                exitCode = None\<rparr>,
           final = initial_state, stageJob = None\<rparr>
      | Some stage \<Rightarrow>
          if commands = [] then
            \<lparr>settled = Fulfilled \<lparr>success = False, output = [],
                 error = Some (''No valid commands found in stage "'' @ stageName @ ''"''),
                 exitCode = None\<rparr>,
             final = initial_state, stageJob = job sink JobFailed\<rparr>
          else if stage_parallel stage then
            (let launches = launch_commands exec commands initial_state;
                 st = settle_commands (fst launches) order (snd launches) in
             case all_settled (map callback_result (fst launches)) of
               None \<Rightarrow> \<lparr>settled = NeverSettles, final = st, stageJob = job sink JobRunning\<rparr>
             | Some results \<Rightarrow> stage_result sink stage (process_results commands results st))
          else
            (case sequential_commands exec commands initial_state of
               (Finished, st) \<Rightarrow> stage_result sink stage st
             | (Break, st) \<Rightarrow> stage_result sink stage st
             | (Return r, st) \<Rightarrow>
                 \<lparr>settled = Fulfilled r, final = st, stageJob = job sink JobRunning\<rparr>
             | (Throw e, st) \<Rightarrow>
                 \<lparr>settled = Rejected e, final = st, stageJob = job sink JobRunning\<rparr>
             | (Hang, st) \<Rightarrow>
                 \<lparr>settled = NeverSettles, final = st, stageJob = job sink JobRunning\<rparr>))\<close>

text \<open>The commands a trace started, and the commands whose run returned, in order.\<close>

fun started :: "event list \<Rightarrow> string list" where
  "started [] = []"
| "started (RunCommand n # es) = n # started es"
| "started (e # es) = started es"

fun completed :: "event list \<Rightarrow> string list" where
  "completed [] = []"
| "completed (Completed n # es) = n # completed es"
| "completed (e # es) = completed es"

text \<open>
  Three shapes of a trace, used to state the order of a sequential run: every dependency
  check was given the names completed before it (after the names \<open>E\<close> completed before
  the trace); every call of \<^verbatim>\<open>runCommand\<close> comes right after the successful check of
  its command and is followed by nothing or by its return; between two calls lies a
  pause of 500 ms.
\<close>

definition snap :: "string list \<Rightarrow> event list \<Rightarrow> bool" where
  "snap E t = (\<forall>a n ex b z. t = a @ DependencyCheck n ex b # z \<longrightarrow> ex = E @ completed a)"

definition single :: "event list \<Rightarrow> bool" where
  "single t = (\<forall>a n z. t = a @ RunCommand n # z \<longrightarrow>
        (\<exists>a' ex. a = a' @ [DependencyCheck n ex True]) \<and> (z = [] \<or> (\<exists>z'. z = Completed n # z')))"

definition paused :: "event list \<Rightarrow> bool" where
  "paused t = (\<forall>a n b m z. t = a @ RunCommand n # b @ RunCommand m # z \<longrightarrow> Pause 500 \<in> set b)"

text \<open>
  The dependency checks of a trace with their answers, the names whose check passed, and,
  for the launches of a parallel stage, the names whose \<^verbatim>\<open>runCommand\<close> was awaited, the
  launches whose promise was fulfilled, and the names their continuations push, in the
  order of completion.
\<close>

fun checks :: "event list \<Rightarrow> (string \<times> bool) list" where
  "checks [] = []"
| "checks (DependencyCheck n ex b # es) = (n, b) # checks es"
| "checks (e # es) = checks es"

fun awaited :: "(CommandConfig \<times> launch) list \<Rightarrow> string list" where
  "awaited [] = []"
| "awaited ((c, Awaiting p) # ls) = name c # awaited ls"
| "awaited (l # ls) = awaited ls"

fun fulfilled :: "CommandConfig \<times> launch \<Rightarrow> bool" where
  "fulfilled (c, Awaiting (Fulfilled r)) = True"
| "fulfilled l = False"

definition pushes :: "(CommandConfig \<times> launch) list \<Rightarrow> nat list \<Rightarrow> string list" where
  "pushes ls order =
     map (\<lambda>i. name (fst (ls ! i))) (filter (\<lambda>i. i < length ls \<and> fulfilled (ls ! i)) order)"

definition passed :: "(string \<times> bool) list \<Rightarrow> string list" where
  "passed cs = map fst (filter snd cs)"

text \<open>A command names \<open>n\<close> among its dependencies.\<close>

definition requires :: "CommandConfig \<Rightarrow> string \<Rightarrow> bool" where
  "requires c n =
     (case depends_on c of
        None \<Rightarrow> False
      | Some (Single d) \<Rightarrow> d \<noteq> [] \<and> d = n
      | Some (Many ds) \<Rightarrow> n \<in> set ds)"

text \<open>
  Two more shapes of a trace. Every return of \<^verbatim>\<open>runCommand\<close> comes right after its call.
  Every call of \<^verbatim>\<open>runCommand\<close> is the call for a command of that name, and the call
  returns in the trace exactly when \<open>exec\<close>, asked at the events up to the call (after the
  events \<open>h\<close> before the trace), fulfils the promise.
\<close>

definition after_call :: "event list \<Rightarrow> bool" where
  "after_call t = (\<forall>a n z. t = a @ Completed n # z \<longrightarrow> (\<exists>a'. a = a' @ [RunCommand n]))"

definition answered :: "runner \<Rightarrow> CommandConfig list \<Rightarrow> event list \<Rightarrow> event list \<Rightarrow> bool" where
  "answered exec cs h t =
     (\<forall>a n z. t = a @ RunCommand n # z \<longrightarrow>
        (\<exists>c \<in> set cs. name c = n \<and>
           ((\<exists>r. exec (h @ a @ [RunCommand n]) c = Fulfilled r) \<longleftrightarrow> Completed n \<in> set z)))"


section \<open>The platform\<close>

text \<open>
  What lies outside the engine: whether a path exists, \<^verbatim>\<open>path.relative\<close>, the ignore
  predicate of \<^verbatim>\<open>IgnoreProvider\<close>, \<^verbatim>\<open>JSON.parse\<close> (no value when it throws) with
  \<^verbatim>\<open>JSON.stringify(value, null, 2)\<close>, and the regular expressions that are not read
  below. For the source of an expression, \<open>replace_regexp\<close> and \<open>match_regexp\<close> give the
  text of the error when \<^verbatim>\<open>new RegExp\<close> throws; otherwise \<open>replace_regexp\<close> gives
  \<^verbatim>\<open>text.replace(new RegExp(source, 'g'), value)\<close> as a function of the text and the value,
  and \<open>match_regexp\<close> gives \<^verbatim>\<open>text.match(new RegExp(source, 'i'))\<close> as a function of the text,
  whose answer is the text of group 1 when there is a match.
\<close>

record 'j platform =
  existsSync :: "string \<Rightarrow> bool"
  path_relative :: "string \<Rightarrow> string \<Rightarrow> string"
  isIgnored :: "string \<Rightarrow> bool"
  json_parse :: "string \<Rightarrow> 'j option"
  json_stringify :: "'j \<Rightarrow> string"
  replace_regexp :: "string \<Rightarrow> string + (string \<Rightarrow> string \<Rightarrow> string)"
  match_regexp :: "string \<Rightarrow> string + (string \<Rightarrow> string option)"

section \<open>Text and regular expressions\<close>

text \<open>Text is a \<open>string\<close>, one \<open>char\<close> per code unit, for the code units below 256.\<close>

text \<open>\<^verbatim>\<open>\w\<close>: a letter, a digit or the underscore.\<close>

definition is_word_char :: "char \<Rightarrow> bool" where
  "is_word_char c =
     (let n = (of_char c :: nat) in
      (48 \<le> n \<and> n \<le> 57) \<or> (65 \<le> n \<and> n \<le> 90) \<or> n = 95 \<or> (97 \<le> n \<and> n \<le> 122))"

text \<open>The line terminators that \<^verbatim>\<open>.\<close> does not match, among the code units below 256.\<close>

definition is_line_terminator :: "char \<Rightarrow> bool" where
  "is_line_terminator c = (c = CHR 0x0A \<or> c = CHR 0x0D)"

text \<open>
  The white space that \<^verbatim>\<open>String.prototype.trim\<close> removes, among the code units below
  256: tab, line feed, vertical tab, form feed, carriage return, space, no-break space.
\<close>

definition is_white_space :: "char \<Rightarrow> bool" where
  "is_white_space c =
     (c = CHR 0x09 \<or> c = CHR 0x0A \<or> c = CHR 0x0B \<or> c = CHR 0x0C \<or> c = CHR 0x0D \<or>
      c = CHR 0x20 \<or> c = CHR 0xA0)"

definition trim :: "string \<Rightarrow> string" where
  "trim s = rev (dropWhile is_white_space (rev (dropWhile is_white_space s)))"

text \<open>
  The canonical form of a character under the flag \<^verbatim>\<open>i\<close>: its upper case, when that is
  one code unit. Among the code units below 256 the letters with an upper case below
  256 are \<^verbatim>\<open>a\<close> to \<^verbatim>\<open>z\<close> and the letters from \<^verbatim>\<open>0xE0\<close> to \<^verbatim>\<open>0xFE\<close> except the division
  sign \<^verbatim>\<open>0xF7\<close>; the upper case is 32 less, which clears the bit of value 32. The upper
  cases of \<^verbatim>\<open>0xB5\<close> and \<^verbatim>\<open>0xFF\<close> lie above 255 and no other code unit below 256 has
  them, and the upper case of \<^verbatim>\<open>0xDF\<close> is two code units: these stand for themselves.
\<close>

definition has_upper_case :: "char \<Rightarrow> bool" where
  "has_upper_case c =
     (let n = (of_char c :: nat) in
      (97 \<le> n \<and> n \<le> 122) \<or> (224 \<le> n \<and> n \<le> 254 \<and> n \<noteq> 247))"

definition canonicalize :: "char \<Rightarrow> char" where
  "canonicalize c =
     (if has_upper_case c then
        (case c of Char b0 b1 b2 b3 b4 b5 b6 b7 \<Rightarrow> Char b0 b1 b2 b3 b4 False b6 b7)
      else c)"

text \<open>\<^verbatim>\<open>String.prototype.includes\<close>.\<close>

fun includes_str :: "string \<Rightarrow> string \<Rightarrow> bool" where
  "includes_str [] sub = (sub = [])"
| "includes_str (c # cs) sub = (prefix sub (c # cs) \<or> includes_str cs sub)"

text \<open>\<^verbatim>\<open>String.prototype.indexOf\<close> for one character; \<open>None\<close> stands for \<open>-1\<close>.\<close>

fun indexOf :: "string \<Rightarrow> char \<Rightarrow> nat option" where
  "indexOf [] x = None"
| "indexOf (c # cs) x = (if c = x then Some 0 else map_option Suc (indexOf cs x))"

subsection \<open>Regular expressions built from a name\<close>

text \<open>
  The three regular expressions of \<^verbatim>\<open>commandRunner.ts\<close> that are built from a name,
  \<^verbatim>\<open>\$\{NAME\}\<close>, \<^verbatim>\<open>\$NAME\b\<close> and \<^verbatim>\<open>::set-output name=NAME::(.*)\<close>, put the name into the
  source of the expression as it is, so the name is read as a piece of a regular
  expression. The syntax characters of regular expressions are the following; every
  other character in the name stands for itself.
\<close>

definition is_syntax_char :: "char \<Rightarrow> bool" where
  "is_syntax_char c = (c \<in> set (CHR 0x5C # ''^$.*+?()[]{}|''))"

definition literal_name :: "string \<Rightarrow> bool" where
  "literal_name k = list_all (\<lambda>c. \<not> is_syntax_char c) k"

text \<open>
  The pieces of an expression that are read here: a character that stands for itself,
  \<^verbatim>\<open>.\<close> (any character but a line terminator), \<^verbatim>\<open>$\<close> (the end of the text, there being
  no flag \<^verbatim>\<open>m\<close>) and \<^verbatim>\<open>\b\<close>. A name is read when all its characters are pattern
  characters, \<^verbatim>\<open>.\<close> or \<^verbatim>\<open>$\<close>. A name with another syntax character (a quantifier, a
  group, a class, an alternative, an escape, \<^verbatim>\<open>^\<close>) is not read: its expression is left
  to the platform.
\<close>

datatype atom = Lit char | AnyChar | EndOfInput | WordBoundary

definition name_atom :: "char \<Rightarrow> atom option" where
  "name_atom c =
     (if c = CHR ''.'' then Some AnyChar
      else if c = CHR ''$'' then Some EndOfInput
      else if is_syntax_char c then None
      else Some (Lit c))"

definition name_atoms :: "string \<Rightarrow> atom list option" where
  "name_atoms k = those (map name_atom k)"

text \<open>
  \<^verbatim>\<open>\b\<close> between the character before a position and the text from the position on:
  exactly one of the two sides is a word character (the start and the end of the text are
  none).
\<close>

definition word_boundary :: "char option \<Rightarrow> string \<Rightarrow> bool" where
  "word_boundary prev rest =
     ((case prev of None \<Rightarrow> False | Some l \<Rightarrow> is_word_char l) \<noteq>
      (case rest of [] \<Rightarrow> False | c # cs \<Rightarrow> is_word_char c))"

text \<open>
  Whether the pieces match at the start of \<open>s\<close>, where \<open>prev\<close> is the character before
  \<open>s\<close>; the answer is the length of the match. \<open>i\<close> is the flag \<^verbatim>\<open>i\<close>.
\<close>

fun match_atoms :: "bool \<Rightarrow> atom list \<Rightarrow> char option \<Rightarrow> string \<Rightarrow> nat option" where
  "match_atoms i [] prev s = Some 0"
| "match_atoms i (Lit a # p) prev [] = None"
| "match_atoms i (Lit a # p) prev (c # cs) =
     (if (if i then canonicalize a = canonicalize c else a = c)
      then map_option Suc (match_atoms i p (Some c) cs) else None)"
| "match_atoms i (AnyChar # p) prev [] = None"
| "match_atoms i (AnyChar # p) prev (c # cs) =
     (if \<not> is_line_terminator c then map_option Suc (match_atoms i p (Some c) cs) else None)"
| "match_atoms i (EndOfInput # p) prev s = (if s = [] then match_atoms i p prev s else None)"
| "match_atoms i (WordBoundary # p) prev s =
     (if word_boundary prev s then match_atoms i p prev s else None)"

text \<open>The character before the position that follows the text \<open>scanned\<close>.\<close>

definition previous :: "string \<Rightarrow> char option" where
  "previous scanned = (if scanned = [] then None else Some (last scanned))"

text \<open>The pieces of the three expressions, given the pieces of the name.\<close>

definition braced_atoms :: "atom list \<Rightarrow> atom list" where
  "braced_atoms pieces = [Lit CHR ''$'', Lit CHR ''{''] @ pieces @ [Lit CHR ''}'']"

definition bare_atoms :: "atom list \<Rightarrow> atom list" where
  "bare_atoms pieces = [Lit CHR ''$''] @ pieces @ [WordBoundary]"

definition marker_atoms :: "atom list \<Rightarrow> atom list" where
  "marker_atoms pieces = map Lit ''::set-output name='' @ pieces @ map Lit ''::''"

text \<open>The sources of the three expressions, as the template literals build them.\<close>

definition braced_source :: "string \<Rightarrow> string" where
  "braced_source key = [CHR 0x5C, CHR ''$'', CHR 0x5C, CHR ''{''] @ key @ [CHR 0x5C, CHR ''}'']"

definition bare_source :: "string \<Rightarrow> string" where
  "bare_source key = [CHR 0x5C, CHR ''$''] @ key @ [CHR 0x5C, CHR ''b'']"

definition marker_source :: "string \<Rightarrow> string" where
  "marker_source outputName = ''::set-output name='' @ outputName @ ''::(.*)''"

subsection \<open>Replacing all matches\<close>

text \<open>
  \<^verbatim>\<open>GetSubstitution\<close> of \<^verbatim>\<open>String.prototype.replace\<close> for a pattern without capture groups:
  in the replacement text \<^verbatim>\<open>$$\<close> stands for a dollar sign, \<^verbatim>\<open>$&\<close> for the matched text,
  \<^verbatim>\<open>$`\<close> for the text before the match and \<^verbatim>\<open>$'\<close> for the text after it; every other
  character stands for itself.
\<close>

fun getSubstitution :: "string \<Rightarrow> string \<Rightarrow> string \<Rightarrow> string \<Rightarrow> string" where
  "getSubstitution matched preceding following [] = []"
| "getSubstitution matched preceding following [c] = [c]"
| "getSubstitution matched preceding following (c # d # r) =
     (if c = CHR ''$'' \<and> d = CHR ''$'' then CHR ''$'' # getSubstitution matched preceding following r
      else if c = CHR ''$'' \<and> d = CHR ''&'' then matched @ getSubstitution matched preceding following r
      else if c = CHR ''$'' \<and> d = CHR 0x60 then preceding @ getSubstitution matched preceding following r
      else if c = CHR ''$'' \<and> d = CHR 0x27 then following @ getSubstitution matched preceding following r
      else c # getSubstitution matched preceding following (d # r))"

text \<open>
  \<^verbatim>\<open>text.replace(pattern, value)\<close> with the flag \<^verbatim>\<open>g\<close>: the text is scanned from the left;
  a match is replaced by the substitution and the scan goes on after it; after an empty
  match the scan goes on one character further. \<open>scanned\<close> is the part of the text
  already scanned.
\<close>

function replaceAll :: "atom list \<Rightarrow> string \<Rightarrow> string \<Rightarrow> string \<Rightarrow> string" where
  "replaceAll p v scanned [] =
     (case match_atoms False p (previous scanned) [] of
        None \<Rightarrow> []
      | Some n \<Rightarrow> getSubstitution [] scanned [] v)"
| "replaceAll p v scanned (c # cs) =
     (case match_atoms False p (previous scanned) (c # cs) of
        None \<Rightarrow> c # replaceAll p v (scanned @ [c]) cs
      | Some n \<Rightarrow>
          if n = 0 then
            getSubstitution [] scanned (c # cs) v @ c # replaceAll p v (scanned @ [c]) cs
          else
            getSubstitution (take n (c # cs)) scanned (drop n (c # cs)) v
              @ replaceAll p v (scanned @ take n (c # cs)) (drop n (c # cs)))"
  by pat_completeness auto
termination
  by (relation "measure (\<lambda>(p, v, scanned, s). length s)") simp_all

text \<open>
  \<^verbatim>\<open>stdout.match(pattern)\<close> for the expression of a marker, with the flag \<^verbatim>\<open>i\<close>: the first
  position where the pieces match; group 1, \<^verbatim>\<open>(.*)\<close>, is the rest of the line after them.
  The answer is the text of the group.
\<close>

fun first_match :: "atom list \<Rightarrow> string \<Rightarrow> string \<Rightarrow> string option" where
  "first_match p scanned [] =
     (case match_atoms True p (previous scanned) [] of None \<Rightarrow> None | Some n \<Rightarrow> Some [])"
| "first_match p scanned (c # cs) =
     (case match_atoms True p (previous scanned) (c # cs) of
        None \<Rightarrow> first_match p (scanned @ [c]) cs
      | Some n \<Rightarrow> Some (takeWhile (\<lambda>x. \<not> is_line_terminator x) (drop n (c # cs))))"

section \<open>Variables\<close>

text \<open>
  Modelled from the spec: the class \<^verbatim>\<open>VariableManager\<close> of \<^verbatim>\<open>configProvider.ts\<close> is not
  among the sources. The spec describes it as a mapping from variable name to value
  with \<^verbatim>\<open>setVariable(name, value)\<close> and \<^verbatim>\<open>getAll()\<close>. The mapping is kept as a list of
  entries in the order of \<^verbatim>\<open>Object.entries\<close>: setting a name that is present replaces
  its value in place, a new name is added at the end.
\<close>

type_synonym store = "(string \<times> string) list"

fun setVariable :: "string \<Rightarrow> string \<Rightarrow> store \<Rightarrow> store" where
  "setVariable n v [] = [(n, v)]"
| "setVariable n v ((k, w) # s) = (if k = n then (k, v) # s else (k, w) # setVariable n v s)"

definition getAllVariables :: "store \<Rightarrow> store" where
  "getAllVariables s = s"

text \<open>
  \<^verbatim>\<open>processedCommand.replace(new RegExp(`\\$\\{${key}\\}`, 'g'), value)\<close> and
  \<^verbatim>\<open>processedCommand.replace(new RegExp(`\\$${key}\\b`, 'g'), value)\<close>; the error when
  \<^verbatim>\<open>new RegExp\<close> throws.
\<close>

definition replace_braced :: "'j platform \<Rightarrow> string \<Rightarrow> string \<Rightarrow> string \<Rightarrow> string + string" where
  "replace_braced env key val processedCommand =
     (case name_atoms key of
        Some pieces \<Rightarrow> Inr (replaceAll (braced_atoms pieces) val [] processedCommand)
      | None \<Rightarrow>
          (case replace_regexp env (braced_source key) of
             Inl e \<Rightarrow> Inl e
           | Inr replacer \<Rightarrow> Inr (replacer processedCommand val)))"

definition replace_bare :: "'j platform \<Rightarrow> string \<Rightarrow> string \<Rightarrow> string \<Rightarrow> string + string" where
  "replace_bare env key val processedCommand =
     (case name_atoms key of
        Some pieces \<Rightarrow> Inr (replaceAll (bare_atoms pieces) val [] processedCommand)
      | None \<Rightarrow>
          (case replace_regexp env (bare_source key) of
             Inl e \<Rightarrow> Inl e
           | Inr replacer \<Rightarrow> Inr (replacer processedCommand val)))"

text \<open>
  \<^verbatim>\<open>processVariables\<close>: a first loop over all variables replaces \<^verbatim>\<open>${NAME}\<close>, a second
  loop over all variables replaces \<^verbatim>\<open>$NAME\<close> before a word boundary. The result is the
  error when \<^verbatim>\<open>new RegExp\<close> throws in one of the loops.
\<close>

definition replace_each ::
  "(string \<Rightarrow> string \<Rightarrow> string \<Rightarrow> string + string) \<Rightarrow> store \<Rightarrow> string + string \<Rightarrow>
   string + string" where
  "replace_each replace variables start =
     foldl (\<lambda>processedCommand (key, val).
              case processedCommand of Inl e \<Rightarrow> Inl e | Inr t \<Rightarrow> replace key val t)
       start variables"

definition processVariables :: "'j platform \<Rightarrow> store \<Rightarrow> string \<Rightarrow> string + string" where
  "processVariables env variables commandStr =
     replace_each (replace_bare env) variables
       (replace_each (replace_braced env) variables (Inr commandStr))"

text \<open>
  \<^verbatim>\<open>stdout.match(new RegExp(`::set-output name=${outputName}::(.*)`, 'i'))\<close>: the error when
  \<^verbatim>\<open>new RegExp\<close> throws; otherwise the text of group 1 of the first match, when there is
  a match.
\<close>

definition match_output :: "'j platform \<Rightarrow> string \<Rightarrow> string \<Rightarrow> string + string option" where
  "match_output env outputName stdout =
     (case name_atoms outputName of
        Some pieces \<Rightarrow> Inr (first_match (marker_atoms pieces) [] stdout)
      | None \<Rightarrow>
          (case match_regexp env (marker_source outputName) of
             Inl e \<Rightarrow> Inl e
           | Inr matcher \<Rightarrow> Inr (matcher stdout)))"

text \<open>
  The loop of \<^verbatim>\<open>extractOutputVariables\<close> over the declared output names, as the calls of
  \<^verbatim>\<open>setVariable\<close> it makes, in order, and the error when \<^verbatim>\<open>new RegExp\<close> threw, which ends
  the loop: for every name in turn, when the marker is found and the text of the group is
  not empty (\<^verbatim>\<open>match && match[1]\<close>), the variable is set to the trimmed text of the group.
\<close>

fun setVariable_calls ::
  "'j platform \<Rightarrow> string list \<Rightarrow> string \<Rightarrow> (string \<times> string) list \<times> string option" where
  "setVariable_calls env [] stdout = ([], None)"
| "setVariable_calls env (outputName # names) stdout =
     (case match_output env outputName stdout of
        Inl e \<Rightarrow> ([], Some e)
      | Inr found \<Rightarrow>
          (let rest = setVariable_calls env names stdout in
           case found of
             None \<Rightarrow> rest
           | Some captured \<Rightarrow>
               if captured \<noteq> [] then ((outputName, trim captured) # fst rest, snd rest)
               else rest))"

text \<open>
  \<^verbatim>\<open>extractOutputVariables\<close>: nothing without \<^verbatim>\<open>outputs\<close>; otherwise the variables after
  the calls of the loop, and the error when the function threw.
\<close>

definition extractOutputVariables ::
  "'j platform \<Rightarrow> CommandConfig \<Rightarrow> string \<Rightarrow> store \<Rightarrow> store \<times> string option" where
  "extractOutputVariables env c stdout variables =
     (case outputs c of
        None \<Rightarrow> (variables, None)
      | Some names \<Rightarrow>
          (let calls = setVariable_calls env names stdout in
           (foldl (\<lambda>s (n, v). setVariable n v s) variables (fst calls), snd calls)))"

subsection \<open>Occurrences\<close>

text \<open>
  What the claims call an occurrence: the text \<^verbatim>\<open>${NAME}\<close> at the start of \<open>s\<close>; the text
  \<^verbatim>\<open>$NAME\<close> at the start of \<open>s\<close> with a word boundary after it; a marker for the name at
  the start of \<open>s\<close>, compared without regard to case.
\<close>

definition braced_at :: "string \<Rightarrow> string \<Rightarrow> bool" where
  "braced_at k s = prefix (''${'' @ k @ ''}'') s"

definition bare_at :: "string \<Rightarrow> string \<Rightarrow> bool" where
  "bare_at k s =
     (prefix (CHR ''$'' # k) s \<and>
      word_boundary (Some (last (CHR ''$'' # k))) (drop (length (CHR ''$'' # k)) s))"

definition marker :: "string \<Rightarrow> string" where
  "marker outputName = ''::set-output name='' @ outputName @ ''::''"

definition marker_at :: "string \<Rightarrow> string \<Rightarrow> bool" where
  "marker_at n s =
     (length (marker n) \<le> length s \<and>
      map canonicalize (take (length (marker n)) s) = map canonicalize (marker n))"

text \<open>The property holds of the text from some position on.\<close>

fun somewhere :: "(string \<Rightarrow> bool) \<Rightarrow> string \<Rightarrow> bool" where
  "somewhere P [] = P []"
| "somewhere P (c # cs) = (P (c # cs) \<or> somewhere P cs)"

section \<open>Saving the output of a command\<close>

subsection \<open>Paths\<close>

text \<open>
  The functions of the module \<^verbatim>\<open>path\<close> that \<^verbatim>\<open>saveOutputToFile\<close> calls, as they work on
  POSIX: \<^verbatim>\<open>basename\<close>, \<^verbatim>\<open>normalize\<close> and \<^verbatim>\<open>join\<close>.
\<close>

text \<open>
  \<^verbatim>\<open>path.basename\<close>: the trailing slashes are dropped, and what follows the last slash
  of the rest is the answer.
\<close>

definition basename :: "string \<Rightarrow> string" where
  "basename p =
     (let trimmed = dropWhile (\<lambda>c. c = CHR ''/'') (rev p)
      in rev (takeWhile (\<lambda>c. c \<noteq> CHR ''/'') trimmed))"

text \<open>The segments of a path between its slashes.\<close>

fun split_slash :: "string \<Rightarrow> string list" where
  "split_slash [] = [[]]"
| "split_slash (c # cs) =
     (let r = split_slash cs in if c = CHR ''/'' then [] # r else (c # hd r) # tl r)"

fun join_segments :: "string list \<Rightarrow> string" where
  "join_segments [] = []"
| "join_segments [s] = s"
| "join_segments (s # t # ss) = s @ CHR ''/'' # join_segments (t # ss)"

text \<open>
  \<^verbatim>\<open>normalizeString\<close>: an empty segment and \<^verbatim>\<open>.\<close> are dropped; \<^verbatim>\<open>..\<close> removes the last
  segment kept so far unless there is none or it is \<^verbatim>\<open>..\<close> itself, in which case it is
  kept when the path may rise above its root and dropped otherwise.
\<close>

fun normalizeString :: "bool \<Rightarrow> string list \<Rightarrow> string list \<Rightarrow> string list" where
  "normalizeString allowAboveRoot [] res = res"
| "normalizeString allowAboveRoot (s # ss) res =
     (if s = [] \<or> s = ''.'' then normalizeString allowAboveRoot ss res
      else if s = ''..'' then
        (if res \<noteq> [] \<and> last res \<noteq> ''..'' then normalizeString allowAboveRoot ss (butlast res)
         else if allowAboveRoot then normalizeString allowAboveRoot ss (res @ [''..''])
         else normalizeString allowAboveRoot ss res)
      else normalizeString allowAboveRoot ss (res @ [s]))"

definition normalize :: "string \<Rightarrow> string" where
  "normalize path =
     (if path = [] then ''.''
      else
        (let isAbsolute = (hd path = CHR ''/'');
             trailingSeparator = (last path = CHR ''/'');
             p = join_segments (normalizeString (\<not> isAbsolute) (split_slash path) [])
         in if p = [] then (if isAbsolute then ''/'' else if trailingSeparator then ''./'' else ''.'')
            else (if isAbsolute then ''/'' else []) @ p @ (if trailingSeparator then ''/'' else [])))"

text \<open>\<^verbatim>\<open>path.join\<close> of two paths.\<close>

definition path_join :: "string \<Rightarrow> string \<Rightarrow> string" where
  "path_join a b =
     (if a = [] \<and> b = [] then ''.''
      else if a = [] then normalize b
      else if b = [] then normalize a
      else normalize (a @ CHR ''/'' # b))"

text \<open>A segment that names a file or directory: not empty, not \<^verbatim>\<open>.\<close> or \<^verbatim>\<open>..\<close>, without slash.\<close>

definition proper_segment :: "string \<Rightarrow> bool" where
  "proper_segment s = (s \<noteq> [] \<and> s \<noteq> ''.'' \<and> s \<noteq> ''..'' \<and> CHR ''/'' \<notin> set s)"

subsection \<open>The span of the JSON text\<close>

text \<open>\<^verbatim>\<open>String.prototype.indexOf\<close> for one character, \<open>-1\<close> when it is absent.\<close>

definition indexOf_int :: "string \<Rightarrow> char \<Rightarrow> int" where
  "indexOf_int s x = (case indexOf s x of None \<Rightarrow> - 1 | Some i \<Rightarrow> int i)"

text \<open>\<^verbatim>\<open>String.prototype.charAt\<close>: no character outside the text.\<close>

definition charAt :: "string \<Rightarrow> nat \<Rightarrow> char option" where
  "charAt s i = (if i < length s then Some (s ! i) else None)"

text \<open>
  The start of the span: \<^verbatim>\<open>jsonStart\<close> is \<^verbatim>\<open>Math.max(0, output.indexOf('{'))\<close>,
  \<^verbatim>\<open>jsonStartArray\<close> is \<^verbatim>\<open>output.indexOf('[')\<close>, and \<^verbatim>\<open>startPos\<close> is the second of them
  when it is not \<open>-1\<close> and is less than the first or the first is \<open>-1\<close>.
\<close>

definition startPos :: "string \<Rightarrow> int" where
  "startPos out =
     (let jsonStart = max 0 (indexOf_int out CHR ''{'');
          jsonStartArray = indexOf_int out CHR ''[''
      in if jsonStartArray \<noteq> - 1 \<and> (jsonStartArray < jsonStart \<or> jsonStart = - 1)
         then jsonStartArray else jsonStart)"

text \<open>
  The loop that looks for the end of the span: from \<^verbatim>\<open>startPos\<close> on, a bracket of the
  kind of \<^verbatim>\<open>startChar\<close> raises or lowers \<^verbatim>\<open>depth\<close>, and the position after the bracket
  that brings it to zero is \<^verbatim>\<open>endPos\<close>. \<open>rest\<close> is the text from position \<open>i\<close> on.
\<close>

fun find_end :: "char option \<Rightarrow> string \<Rightarrow> nat \<Rightarrow> int \<Rightarrow> nat option" where
  "find_end startChar [] i depth = None"
| "find_end startChar (c # rest) i depth =
     (if (c = CHR ''{'' \<and> startChar = Some CHR ''{'') \<or> (c = CHR ''['' \<and> startChar = Some CHR ''['')
      then find_end startChar rest (i + 1) (depth + 1)
      else if (c = CHR ''}'' \<and> startChar = Some CHR ''{'') \<or> (c = CHR '']'' \<and> startChar = Some CHR ''['')
      then (if depth - 1 = 0 then Some (i + 1) else find_end startChar rest (i + 1) (depth - 1))
      else find_end startChar rest (i + 1) depth)"

text \<open>
  \<^verbatim>\<open>jsonContent\<close>: the text from \<^verbatim>\<open>startPos\<close> to \<^verbatim>\<open>endPos\<close>, when both are found.
\<close>

definition jsonContent :: "string \<Rightarrow> string option" where
  "jsonContent out =
     (if startPos out \<noteq> - 1 then
        (let start = nat (startPos out) in
         case find_end (charAt out start) (drop start out) start 0 of
           None \<Rightarrow> None
         | Some endPos \<Rightarrow> Some (take (endPos - start) (drop start out)))
      else None)"

subsection \<open>Writing the file\<close>

text \<open>\<^verbatim>\<open>shouldIgnorePath\<close>.\<close>

definition shouldIgnorePath :: "'j platform \<Rightarrow> string \<Rightarrow> string \<Rightarrow> bool" where
  "shouldIgnorePath env filePath workspaceRoot =
     (let relativePath =
            (if prefix workspaceRoot filePath then path_relative env workspaceRoot filePath
             else filePath)
      in isIgnored env (map (\<lambda>c. if c = CHR 0x5C then CHR ''/'' else c) relativePath))"

text \<open>The calls of \<^verbatim>\<open>fs.mkdirSync\<close> and \<^verbatim>\<open>fs.writeFileSync\<close>.\<close>

datatype fs_op = Mkdir string | WriteFile string string

text \<open>\<^verbatim>\<open>outputFilename.replace(/\.+$/, '')\<close>: the trailing periods are removed.\<close>

definition strip_trailing_periods :: "string \<Rightarrow> string" where
  "strip_trailing_periods s = rev (dropWhile (\<lambda>c. c = CHR ''.'') (rev s))"

text \<open>\<^verbatim>\<open>String.prototype.endsWith\<close>.\<close>

definition endsWith :: "string \<Rightarrow> string \<Rightarrow> bool" where
  "endsWith s e = prefix (rev e) (rev s)"

text \<open>
  \<^verbatim>\<open>saveOutputToFile\<close>, as the calls it makes to the file system, in order. An absent or
  empty file name is falsy. An error thrown by \<^verbatim>\<open>new RegExp\<close> in \<^verbatim>\<open>processVariables\<close> is
  caught and logged before any call is made. An error thrown by the file system ends the
  function, where it is caught and logged; the calls listed are the ones made when none
  is thrown.
\<close>

definition saveOutputToFile ::
  "'j platform \<Rightarrow> store \<Rightarrow> CommandConfig \<Rightarrow> string \<Rightarrow> string \<Rightarrow> string option \<Rightarrow> fs_op list" where
  "saveOutputToFile env variables c out workspaceRoot alternativeFilename =
     (let configured = (case output_file c of None \<Rightarrow> [] | Some f \<Rightarrow> f);
          alternative = (case alternativeFilename of None \<Rightarrow> [] | Some f \<Rightarrow> f)
      in if configured = [] \<and> alternative = [] then []
         else
           (case (if alternative \<noteq> [] then Inr alternative
                  else processVariables env variables configured) of
              Inl e \<Rightarrow> []
            | Inr outputFilename \<Rightarrow>
                (let resultsDir = path_join workspaceRoot ''.niobium_results'';
                     made = (if \<not> existsSync env resultsDir then [Mkdir resultsDir] else []);
                     sanitizedOutputFilename = strip_trailing_periods outputFilename;
                     baseFilename = basename sanitizedOutputFilename;
                     outputFilePath = path_join resultsDir baseFilename;
                     relativeOutputPath = path_relative env workspaceRoot outputFilePath
                 in if shouldIgnorePath env relativeOutputPath workspaceRoot then made
                    else if endsWith baseFilename ''.json'' then
                      (case jsonContent out of
                         None \<Rightarrow> made @ [WriteFile outputFilePath out]
                       | Some content \<Rightarrow>
                           (case json_parse env content of
                              None \<Rightarrow> made @ [WriteFile outputFilePath out]
                            | Some parsedJson \<Rightarrow>
                                made @ [WriteFile outputFilePath
                                          (json_stringify env parsedJson)]))
                    else made @ [WriteFile outputFilePath out])))"

section \<open>Terminating a command\<close>

text \<open>
  \<^verbatim>\<open>killProcessAndChildren\<close> calls the operating system: it looks up child processes and
  the owners of ports, sends signals and runs shell commands. The calls are recorded in
  order; what the operating system answers is a parameter, which may depend on the calls
  made so far. Any call may throw.
\<close>

datatype signal = SIGTERM | SIGKILL

text \<open>
  The shell commands: on POSIX \<^verbatim>\<open>lsof -i:PORT -t | xargs kill -9\<close>,
  \<^verbatim>\<open>pkill -f "node.*SCRIPT"\<close> and \<^verbatim>\<open>lsof -ti:PORT | xargs kill -9\<close>; on Windows
  \<^verbatim>\<open>taskkill /pid PID /T /F\<close>, \<^verbatim>\<open>taskkill /F /FI "IMAGENAME eq node.exe" /FI "WINDOWTITLE eq *SCRIPT*"\<close>
  and the two loops over \<^verbatim>\<open>netstat -aon\<close> that look for \<^verbatim>\<open>":PORT"\<close> and for \<^verbatim>\<open>":PORT "\<close>.
\<close>

datatype shell_command =
    LsofKill nat
  | Pkill string
  | LsofKillForced nat
  | Taskkill nat
  | TaskkillNode string
  | NetstatKill nat
  | NetstatKillForced nat

datatype os_call =
    FindChildProcesses nat
  | CheckPortsInUse "nat list"
  | Kill nat signal
  | Sleep nat
  | Exec shell_command

type_synonym history = "os_call list"

text \<open>
  The operating system: the child processes of a pid and the owners of ports (or an
  error), the error of \<^verbatim>\<open>process.kill\<close> if it throws (\<^verbatim>\<open>ESRCH\<close> when the process is gone),
  and the error of \<^verbatim>\<open>cp.exec\<close> if it throws.
\<close>

record os =
  children_of :: "history \<Rightarrow> nat \<Rightarrow> string + nat list"
  ports_in_use :: "history \<Rightarrow> nat list \<Rightarrow> string + (nat \<times> nat) list"
  kill_error :: "history \<Rightarrow> nat \<Rightarrow> signal \<Rightarrow> string option"
  exec_error :: "history \<Rightarrow> shell_command \<Rightarrow> string option"

text \<open>
  A statement either completes with a value or throws; both leave a history. \<open>seq\<close> runs
  a statement and then the next one, unless the first throws; \<open>try_catch\<close> is
  \<^verbatim>\<open>try { ... } catch (e) { }\<close>, with the value that stands when the body throws.
\<close>

type_synonym 'a outcome = "(string + 'a) \<times> history"

definition seq :: "'a outcome \<Rightarrow> ('a \<Rightarrow> history \<Rightarrow> 'b outcome) \<Rightarrow> 'b outcome" where
  "seq r k = (case fst r of Inl e \<Rightarrow> (Inl e, snd r) | Inr x \<Rightarrow> k x (snd r))"

definition try_catch :: "'a outcome \<Rightarrow> 'a \<Rightarrow> 'a outcome" where
  "try_catch r d = (case fst r of Inl e \<Rightarrow> (Inr d, snd r) | Inr x \<Rightarrow> (Inr x, snd r))"

definition findChildProcesses :: "os \<Rightarrow> nat \<Rightarrow> history \<Rightarrow> nat list outcome" where
  "findChildProcesses sys pid h = (children_of sys h pid, h @ [FindChildProcesses pid])"

definition checkPortsInUse :: "os \<Rightarrow> nat list \<Rightarrow> history \<Rightarrow> (nat \<times> nat) list outcome" where
  "checkPortsInUse sys ports h = (ports_in_use sys h ports, h @ [CheckPortsInUse ports])"

definition process_kill :: "os \<Rightarrow> nat \<Rightarrow> signal \<Rightarrow> history \<Rightarrow> unit outcome" where
  "process_kill sys pid sig h =
     ((case kill_error sys h pid sig of None \<Rightarrow> Inr () | Some e \<Rightarrow> Inl e), h @ [Kill pid sig])"

text \<open>
  \<^verbatim>\<open>await new Promise(resolve => cp.exec(command, () => resolve()))\<close>: the callback
  ignores the error of the command; a throw of \<^verbatim>\<open>cp.exec\<close> itself rejects the promise.
\<close>

definition exec_shell :: "os \<Rightarrow> shell_command \<Rightarrow> history \<Rightarrow> unit outcome" where
  "exec_shell sys cmd h =
     ((case exec_error sys h cmd of None \<Rightarrow> Inr () | Some e \<Rightarrow> Inl e), h @ [Exec cmd])"

definition sleep :: "nat \<Rightarrow> history \<Rightarrow> unit outcome" where
  "sleep ms h = (Inr (), h @ [Sleep ms])"

text \<open>\<^verbatim>\<open>Set.prototype.add\<close> on a set kept in insertion order.\<close>

definition add_pid :: "nat \<Rightarrow> nat list \<Rightarrow> nat list" where
  "add_pid p s = (if p \<in> set s then s else s @ [p])"

definition add_pids :: "nat list \<Rightarrow> nat list \<Rightarrow> nat list" where
  "add_pids ps s = foldl (\<lambda>s p. add_pid p s) s ps"

text \<open>
  \<^verbatim>\<open>criticalPorts\<close>: the detected ports, with 5173 for a command that contains
  \<^verbatim>\<open>npm run dev\<close> or \<^verbatim>\<open>vite\<close>, and 5000 and 3000 for one that contains \<^verbatim>\<open>npm run start\<close>
  or \<^verbatim>\<open>node server\<close>.
\<close>

definition criticalPorts :: "string \<Rightarrow> nat list \<Rightarrow> nat list" where
  "criticalPorts cmd detectedPorts =
     (let p0 = add_pids detectedPorts [];
          p1 = (if includes_str cmd ''npm run dev'' \<or> includes_str cmd ''vite''
                then add_pid 5173 p0 else p0)
      in if includes_str cmd ''npm run start'' \<or> includes_str cmd ''node server''
         then add_pid 3000 (add_pid 5000 p1) else p1)"

text \<open>
  The loop over the owners of the critical ports: an owner that is not yet a target is
  added, and so are its child processes when the lookup does not throw.
\<close>

fun add_port_owners :: "os \<Rightarrow> (nat \<times> nat) list \<Rightarrow> nat list \<Rightarrow> history \<Rightarrow> nat list outcome" where
  "add_port_owners sys [] allPids h = (Inr allPids, h)"
| "add_port_owners sys ((port, pid) # portInfo) allPids h =
     (if pid \<noteq> 0 \<and> pid \<notin> set allPids then
        seq (try_catch (findChildProcesses sys pid h) [])
          (\<lambda>morePids. add_port_owners sys portInfo (add_pids morePids (add_pid pid allPids)))
      else add_port_owners sys portInfo allPids h)"

text \<open>
  The targets: the pid of the command with the child pids already known, the child
  processes found now, and the owners of the critical ports with their child processes.
\<close>

definition target_pids :: "os \<Rightarrow> nat \<Rightarrow> string \<Rightarrow> nat list \<Rightarrow> nat list \<Rightarrow> history \<Rightarrow> nat list outcome" where
  "target_pids sys pid cmd detectedPorts childPids h =
     seq (try_catch (findChildProcesses sys pid h) [])
       (\<lambda>additionalPids h1.
          (let allPids = add_pids additionalPids (add_pids childPids [pid]);
               ports = criticalPorts cmd detectedPorts
           in if ports \<noteq> [] then
                try_catch (seq (checkPortsInUse sys ports h1)
                             (\<lambda>portInfo. add_port_owners sys portInfo allPids)) allPids
              else (Inr allPids, h1)))"

text \<open>\<^verbatim>\<open>for (const pid of allPids) { try { process.kill(pid, signal) } catch (e) { } }\<close>.\<close>

fun kill_all :: "os \<Rightarrow> signal \<Rightarrow> nat list \<Rightarrow> history \<Rightarrow> unit outcome" where
  "kill_all sys sig [] h = (Inr (), h)"
| "kill_all sys sig (pid # pids) h =
     seq (try_catch (process_kill sys pid sig h) ()) (\<lambda>u. kill_all sys sig pids)"

text \<open>A loop of shell commands, each in its own \<^verbatim>\<open>try\<close>.\<close>

fun exec_all :: "os \<Rightarrow> shell_command list \<Rightarrow> history \<Rightarrow> unit outcome" where
  "exec_all sys [] h = (Inr (), h)"
| "exec_all sys (cmd # cmds) h =
     seq (try_catch (exec_shell sys cmd h) ()) (\<lambda>u. exec_all sys cmds)"

text \<open>
  \<^verbatim>\<open>command.command.match(/(?:npm run\s+|node\s+)(\w+)/)?.[1]\<close>: the word after the first
  \<^verbatim>\<open>npm run\<close> or \<^verbatim>\<open>node\<close> that is followed by white space and a word.
\<close>

definition word_after :: "string \<Rightarrow> string \<Rightarrow> string option" where
  "word_after keyword s =
     (if prefix keyword s then
        (let rest = drop (length keyword) s;
             word = takeWhile is_word_char (dropWhile is_white_space rest)
         in if takeWhile is_white_space rest \<noteq> [] \<and> word \<noteq> [] then Some word else None)
      else None)"

fun scriptName :: "string \<Rightarrow> string option" where
  "scriptName [] = None"
| "scriptName (c # cs) =
     (case word_after ''npm run'' (c # cs) of
        Some w \<Rightarrow> Some w
      | None \<Rightarrow>
          (case word_after ''node'' (c # cs) of
             Some w \<Rightarrow> Some w
           | None \<Rightarrow> scriptName cs))"

text \<open>The cleanup of node processes by the name of the script.\<close>

definition node_cleanup :: "os \<Rightarrow> (string \<Rightarrow> shell_command) \<Rightarrow> string \<Rightarrow> history \<Rightarrow> unit outcome" where
  "node_cleanup sys mk cmd h =
     (if includes_str cmd ''npm'' \<or> includes_str cmd ''node'' then
        (case scriptName cmd of
           None \<Rightarrow> (Inr (), h)
         | Some script \<Rightarrow> try_catch (exec_shell sys (mk script) h) ())
      else (Inr (), h))"

text \<open>
  \<^verbatim>\<open>killProcessAndChildren\<close>: nothing without a pid (absent or 0); otherwise the targets
  are collected and, on Windows, killed by \<^verbatim>\<open>taskkill\<close>, on POSIX sent \<^verbatim>\<open>SIGTERM\<close>, then
  after 500 ms \<^verbatim>\<open>SIGKILL\<close>; the cleanups by port and by script name follow.
\<close>

definition killProcessAndChildren ::
  "os \<Rightarrow> bool \<Rightarrow> nat option \<Rightarrow> string \<Rightarrow> nat list \<Rightarrow> nat list \<Rightarrow> history \<Rightarrow> unit outcome" where
  "killProcessAndChildren sys win32 childPid cmd detectedPorts childPids h =
     (case childPid of
        None \<Rightarrow> (Inr (), h)
      | Some pid \<Rightarrow>
          if pid = 0 then (Inr (), h)
          else
            seq (target_pids sys pid cmd detectedPorts childPids h)
              (\<lambda>allPids h1.
                 if win32 then
                   seq (exec_all sys (map Taskkill allPids) h1)
                     (\<lambda>u h2. seq (node_cleanup sys TaskkillNode cmd h2)
                       (\<lambda>u h3. seq (exec_all sys (map NetstatKill detectedPorts) h3)
                         (\<lambda>u. exec_all sys (map NetstatKillForced (criticalPorts cmd detectedPorts)))))
                 else
                   seq (kill_all sys SIGTERM allPids h1)
                     (\<lambda>u h2. seq (sleep 500 h2)
                       (\<lambda>u h3. seq (kill_all sys SIGKILL allPids h3)
                         (\<lambda>u h4. seq (exec_all sys (map LsofKill detectedPorts) h4)
                           (\<lambda>u h5. seq (node_cleanup sys Pkill cmd h5)
                             (\<lambda>u. exec_all sys
                                      (map LsofKillForced (criticalPorts cmd detectedPorts)))))))))"

text \<open>The signals and pauses among the calls.\<close>

fun signals :: "history \<Rightarrow> history" where
  "signals [] = []"
| "signals (Kill pid sig # h) = Kill pid sig # signals h"
| "signals (Sleep ms # h) = Sleep ms # signals h"
| "signals (c # h) = signals h"

section \<open>Running a command\<close>

text \<open>Decimal digits of a number, as \<^verbatim>\<open>`${code}`\<close> prints an exit code.\<close>

definition digit :: "nat \<Rightarrow> char" where
  "digit n = ''0123456789'' ! (n mod 10)"

function show_nat :: "nat \<Rightarrow> string" where
  "show_nat n = (if n < 10 then [digit n] else show_nat (n div 10) @ [digit n])"
  by pat_completeness auto
termination
  by (relation "measure (\<lambda>n. n)") auto

declare show_nat.simps [simp del]

definition show_int :: "int \<Rightarrow> string" where
  "show_int i = (if i < 0 then CHR ''-'' # show_nat (nat (- i)) else show_nat (nat i))"

text \<open>
  What the child process of \<^verbatim>\<open>cp.exec\<close> does: it closes with an exit code (none when a
  signal ended it), having written to standard output and standard error; or the event
  \<^verbatim>\<open>error\<close> arrives, with the text of the error and its \<^verbatim>\<open>code\<close>, when there is one.
\<close>

datatype child_outcome = Closed "int option" string string | ChildError string "string option"

text \<open>
  The error object that reaches the \<^verbatim>\<open>catch\<close> block of \<^verbatim>\<open>runCommand\<close>: its \<^verbatim>\<open>code\<close>,
  \<^verbatim>\<open>stderr\<close> and \<^verbatim>\<open>stdout\<close>, when it has them, and \<^verbatim>\<open>String(error)\<close>.
\<close>

record thrown =
  err_code :: "exit_code option"
  err_stderr :: "string option"
  err_stdout :: "string option"
  err_text :: string

text \<open>The error that the handler of \<^verbatim>\<open>close\<close> rejects with for an exit code other than 0.\<close>

definition exit_error :: "int option \<Rightarrow> string \<Rightarrow> string \<Rightarrow> thrown" where
  "exit_error code stdout stderr =
     \<lparr>err_code = map_option ExitNumber code, err_stderr = Some stderr, err_stdout = Some stdout,
      err_text = ''Error: Command failed with exit code ''
                   @ (case code of None \<Rightarrow> ''null'' | Some n \<Rightarrow> show_int n)\<rparr>"

text \<open>
  What a call of \<^verbatim>\<open>runCommand\<close> leaves behind: how its promise settles, the variables,
  the calls to the file system, and the status with exit code of the command's job at
  the status sink.
\<close>

record command_run =
  returned_result :: "ExecutionResult promise"
  variables_after :: store
  files :: "fs_op list"
  commandJob :: "(job_status \<times> int option) option"

text \<open>\<^verbatim>\<open>x || y\<close> for an optional text: a missing or empty text is falsy.\<close>

definition or_else :: "string option \<Rightarrow> string \<Rightarrow> string" where
  "or_else x y = (case x of None \<Rightarrow> y | Some s \<Rightarrow> if s = [] then y else s)"

text \<open>\<^verbatim>\<open>error.code || 1\<close>.\<close>

definition code_or_1 :: "exit_code option \<Rightarrow> exit_code" where
  "code_or_1 c =
     (case c of
        None \<Rightarrow> ExitNumber 1
      | Some (ExitNumber n) \<Rightarrow> if n = 0 then ExitNumber 1 else ExitNumber n
      | Some (ExitName s) \<Rightarrow> if s = [] then ExitNumber 1 else ExitName s)"

text \<open>The number that \<^verbatim>\<open>completeJobFailure\<close> is given, when the code is a number.\<close>

definition job_code :: "exit_code \<Rightarrow> int option" where
  "job_code c = (case c of ExitNumber n \<Rightarrow> Some n | ExitName s \<Rightarrow> None)"

text \<open>
  The \<^verbatim>\<open>catch\<close> block of \<^verbatim>\<open>runCommand\<close>: the output is saved when there is some, and a
  failed result is returned.
\<close>

definition command_failed ::
  "'j platform \<Rightarrow> bool \<Rightarrow> store \<Rightarrow> CommandConfig \<Rightarrow> string \<Rightarrow> thrown \<Rightarrow> command_run" where
  "command_failed env sink variables c workspaceRoot e =
     (let exitCode = code_or_1 (err_code e);
          stderr = or_else (err_stderr e) (err_text e);
          stdout = or_else (err_stdout e) []
      in \<lparr>returned_result = Fulfilled \<lparr>success = False, output = stdout, error = Some stderr,
                                         exitCode = Some exitCode\<rparr>,
          variables_after = variables,
          files = (if stdout \<noteq> [] then saveOutputToFile env variables c stdout workspaceRoot None
                   else []),
          commandJob = (if sink then Some (JobFailed, job_code exitCode) else None)\<rparr>)"

text \<open>
  \<^verbatim>\<open>runCommand\<close> for one run of the child process. \<open>sink\<close> says whether a
  \<^verbatim>\<open>JobOutputService\<close> is present; only then a kill handler is registered, and
  \<open>killRequested\<close> says whether it was called for the running child before the child
  closed, which sets \<^verbatim>\<open>canceled\<close> and, \<^verbatim>\<open>killProcessAndChildren\<close> having returned, marks the
  job failed with exit code 130. A command with an image is run by \<^verbatim>\<open>runDockerCommand\<close>, here the parameter
  \<open>docker\<close>. The working directory is resolved by \<open>resolve\<close>, which stands for
  \<^verbatim>\<open>path.resolve\<close>. The environment of the child and the detection of ports do not enter
  the result.

  \<^verbatim>\<open>processVariables\<close> is called on the command before the \<^verbatim>\<open>try\<close> block and before the
  job is started: an error thrown there rejects the promise of \<^verbatim>\<open>runCommand\<close>. The handler
  of \<^verbatim>\<open>close\<close> returns at once when \<^verbatim>\<open>canceled\<close> is set; otherwise it resolves the promise
  of the child for exit code 0 and rejects it for any other. The handler of \<^verbatim>\<open>error\<close>
  rejects it. A rejection, and an error thrown by \<^verbatim>\<open>extractOutputVariables\<close>, is caught by
  the \<^verbatim>\<open>catch\<close> block.
\<close>

definition runCommand ::
  "'j platform \<Rightarrow> (string \<Rightarrow> string \<Rightarrow> string) \<Rightarrow> bool \<Rightarrow> bool \<Rightarrow>
   (CommandConfig \<Rightarrow> ExecutionResult promise) \<Rightarrow> child_outcome \<Rightarrow> store \<Rightarrow> CommandConfig \<Rightarrow>
   string \<Rightarrow> command_run" where
  \<open>runCommand env resolve sink killRequested docker child variables c workspaceRoot =
     (if or_else (image c) [] \<noteq> [] then
        \<lparr>returned_result = docker c, variables_after = variables, files = [], commandJob = None\<rparr>
      else
        (case processVariables env variables (command c) of
           Inl e \<Rightarrow>
             \<lparr>returned_result = Rejected e, variables_after = variables, files = [],
              commandJob = None\<rparr>
         | Inr processedCommand \<Rightarrow>
             (let dir = (if or_else (cwd c) [] \<noteq> [] then resolve workspaceRoot (or_else (cwd c) [])
                         else workspaceRoot)
              in if shouldIgnorePath env dir workspaceRoot then
                   \<lparr>returned_result = Fulfilled
                      \<lparr>success = False, output = [],
                       error = Some (''Working directory "'' @ or_else (cwd c) ''undefined''
                                     @ ''" is in an ignored path according to .niobiumignore''),
                       exitCode = Some (ExitNumber 1)\<rparr>,
                    variables_after = variables, files = [],
                    commandJob = (if sink then Some (JobFailed, Some 1) else None)\<rparr>
                 else
                   (case child of
                      Closed code stdout stderr \<Rightarrow>
                        if sink \<and> killRequested then
                          \<lparr>returned_result = NeverSettles, variables_after = variables,
                           files = [], commandJob = Some (JobFailed, Some 130)\<rparr>
                        else if code = Some 0 then
                          (case extractOutputVariables env c stdout variables of
                             (extracted, Some e) \<Rightarrow>
                               command_failed env sink extracted c workspaceRoot
                                 \<lparr>err_code = None, err_stderr = None, err_stdout = None,
                                  err_text = e\<rparr>
                           | (extracted, None) \<Rightarrow>
                               \<lparr>returned_result = Fulfilled
                                  \<lparr>success = True, output = stdout, error = None,
                                   exitCode = Some (ExitNumber 0)\<rparr>,
                                variables_after = extracted,
                                files = saveOutputToFile env extracted c stdout workspaceRoot None,
                                commandJob = (if sink then Some (JobSuccess, None) else None)\<rparr>)
                        else command_failed env sink variables c workspaceRoot
                               (exit_error code stdout stderr)
                    | ChildError message code \<Rightarrow>
                        command_failed env sink variables c workspaceRoot
                          \<lparr>err_code = map_option ExitName code, err_stderr = None,
                           err_stdout = None, err_text = message\<rparr>))))\<close>

section \<open>Example inputs\<close>

definition plain_command :: "string \<Rightarrow> CommandConfig" where
  "plain_command n = \<lparr>name = n, command = ''true'', image = None, cwd = None,
     allow_failure = False, depends_on = None, outputs = None, output_file = None\<rparr>"


definition demo_runner :: runner where
  "demo_runner t c = Fulfilled \<lparr>success = (name c \<noteq> ''b''), output = name c, error = None,
     exitCode = Some (ExitNumber (if name c = ''b'' then 1 else 0))\<rparr>"

definition demo_stage :: StageConfig where
  "demo_stage = \<lparr>stage_name = ''s'', stage_allow_failure = False, stage_parallel = False\<rparr>"

text \<open>
  Three commands of which the first two are skipped: \<open>x\<close> depends on a name that never
  runs, \<open>y\<close> depends on \<open>x\<close>, and both allow failure.
\<close>

definition skip_commands :: "CommandConfig list" where
  "skip_commands = [(plain_command ''x'')\<lparr>depends_on := Some (Many [''missing'']), allow_failure := True\<rparr>,
     (plain_command ''y'')\<lparr>depends_on := Some (Single ''x''), allow_failure := True\<rparr>,
     plain_command ''z'']"




text \<open>
  A parallel stage of three commands, of which \<open>c\<close> depends on \<open>a\<close> and allows failure;
  the runner fulfils every promise.
\<close>

definition parallel_stage :: StageConfig where
  "parallel_stage = \<lparr>stage_name = ''p'', stage_allow_failure = False, stage_parallel = True\<rparr>"

definition parallel_commands :: "CommandConfig list" where
  "parallel_commands = [plain_command ''a'', plain_command ''b'',
     (plain_command ''c'')\<lparr>depends_on := Some (Single ''a''), allow_failure := True\<rparr>]"

text \<open>A command that declares the output \<open>X\<close>, and an output with two markers for it.\<close>

definition output_command :: CommandConfig where
  "output_command = (plain_command ''build'')\<lparr>outputs := Some [''X'']\<rparr>"

definition marker_output :: string where
  "marker_output = ''::SET-output name=x::  42 '' @ [CHR 0x0A] @ ''::set-output name=X::43''"

text \<open>
  A platform on which the results directory exists and nothing is ignored, and whose
  \<^verbatim>\<open>JSON.parse\<close> and \<^verbatim>\<open>JSON.stringify\<close> are given on the two texts used below: the parsed
  value stands for the text it was parsed from, and is printed the way
  \<^verbatim>\<open>JSON.stringify(value, null, 2)\<close> prints it. No example below has a regular expression
  that is left to the platform; for those \<^verbatim>\<open>new RegExp\<close> is taken to throw. Then a command
  that saves to \<^verbatim>\<open>r.json\<close> and one whose file name has a directory, a variable and
  trailing periods.
\<close>

definition demo_platform :: "string platform" where
  \<open>demo_platform = \<lparr>
     existsSync = (\<lambda>p. True),
     path_relative = (\<lambda>a b. drop (Suc (length a)) b),
     isIgnored = (\<lambda>p. False),
     json_parse = (\<lambda>s. if s = ''{"a":1,"b":[2,3]}'' \<or> s = ''[1,2]'' then Some s else None),
     json_stringify = (\<lambda>j. if j = ''[1,2]'' then ''['' @ [CHR 0x0A] @ ''  1,'' @ [CHR 0x0A] @ ''  2'' @ [CHR 0x0A] @ '']''
        else ''{'' @ [CHR 0x0A] @ ''  "a": 1,'' @ [CHR 0x0A] @ ''  "b": ['' @ [CHR 0x0A] @ ''    2,'' @ [CHR 0x0A]
          @ ''    3'' @ [CHR 0x0A] @ ''  ]'' @ [CHR 0x0A] @ ''}''),
     replace_regexp = (\<lambda>source. Inl ''SyntaxError''),
     match_regexp = (\<lambda>source. Inl ''SyntaxError'')\<rparr>\<close>

definition json_command :: CommandConfig where
  "json_command = (plain_command ''scan'')\<lparr>output_file := Some ''r.json''\<rparr>"

definition report_command :: CommandConfig where
  "report_command = (plain_command ''scan'')\<lparr>output_file := Some ''reports/${NAME}.txt..''\<rparr>"

text \<open>
  An operating system on which process 5 has the child 6, the lookup of ports fails,
  process 6 is gone when it is signalled, and \<^verbatim>\<open>cp.exec\<close> throws.
\<close>

definition demo_os :: os where
  "demo_os = \<lparr>
     children_of = (\<lambda>h pid. if pid = 5 then Inr [6] else Inl ''pgrep failed''),
     ports_in_use = (\<lambda>h ports. Inl ''lsof failed''),
     kill_error = (\<lambda>h pid sig. if pid = 6 then Some ''ESRCH'' else None),
     exec_error = (\<lambda>h cmd. Some ''spawn failed'')\<rparr>"

section \<open>Properties of the stage scheduler\<close>

lemma started_append [simp]: "started (a @ b) = started a @ started b"
  by (induction a rule: started.induct) auto
lemma completed_append [simp]: "completed (a @ b) = completed a @ completed b"
  by (induction a rule: completed.induct) auto

lemma trace_log [simp]: "trace (log e st) = trace st @ [e]"
  and executed_log [simp]: "executedCommands (log e st) = executedCommands st"
  and output_log [simp]: "combinedOutput (log e st) = combinedOutput st"
  and success_log [simp]: "stageSuccess (log e st) = stageSuccess st"
  by (simp_all add: log_def)

lemma checked_simps [simp]:
  "trace (checked c seen ok st) = trace st @ [DependencyCheck (name c) seen ok]"
  "executedCommands (checked c seen ok st) = executedCommands st"
  "combinedOutput (checked c seen ok st) = combinedOutput st"
  "stageSuccess (checked c seen ok st) = stageSuccess st"
  by (simp_all add: checked_def)

lemma launched_simps [simp]:
  "trace (launched c seen st) = trace st @ [DependencyCheck (name c) seen True, RunCommand (name c)]"
  "executedCommands (launched c seen st) = executedCommands st"
  "combinedOutput (launched c seen st) = combinedOutput st"
  "stageSuccess (launched c seen st) = stageSuccess st"
  by (simp_all add: launched_def)

lemma pushed_simps [simp]:
  "trace (pushed c st) = trace st @ [Completed (name c)]"
  "executedCommands (pushed c st) = executedCommands st @ [name c]"
  "combinedOutput (pushed c st) = combinedOutput st"
  "stageSuccess (pushed c st) = stageSuccess st"
  by (simp_all add: pushed_def)


lemma sequential_Cons_cases [consumes 1, case_names Abort Skip Rejected Hang Break Continue]:
  assumes "sequential_commands exec (c # cs) st = (x, st')"
  obtains
    (Abort) "\<not> areDependenciesSatisfied c (executedCommands st)" "\<not> allow_failure c"
      "x = Return \<lparr>success = False, output = combinedOutput st,
                    error = Some (dependencyError c), exitCode = Some (ExitNumber 1)\<rparr>"
      "st' = checked c (executedCommands st) False st"
  | (Skip) "\<not> areDependenciesSatisfied c (executedCommands st)" "allow_failure c"
      "sequential_commands exec cs (checked c (executedCommands st) False st) = (x, st')"
  | (Rejected) e where "areDependenciesSatisfied c (executedCommands st)"
      "exec (trace (launched c (executedCommands st) st)) c = Rejected e"
      "x = Throw e" "st' = launched c (executedCommands st) st"
  | (Hang) "areDependenciesSatisfied c (executedCommands st)"
      "exec (trace (launched c (executedCommands st) st)) c = NeverSettles"
      "x = Hang" "st' = launched c (executedCommands st) st"
  | (Break) r where "areDependenciesSatisfied c (executedCommands st)"
      "exec (trace (launched c (executedCommands st) st)) c = Fulfilled r"
      "\<not> success r" "\<not> allow_failure c" "x = Break"
      "st' = (pushed c ((launched c (executedCommands st) st)
                \<lparr>combinedOutput := combinedOutput st @ output r @ [CHR 0x0A]\<rparr>))
             \<lparr>stageSuccess := False\<rparr>"
  | (Continue) r where "areDependenciesSatisfied c (executedCommands st)"
      "exec (trace (launched c (executedCommands st) st)) c = Fulfilled r"
      "success r \<or> allow_failure c"
      "sequential_commands exec cs
         (log (Pause 500) (pushed c ((launched c (executedCommands st) st)
                \<lparr>combinedOutput := combinedOutput st @ output r @ [CHR 0x0A]\<rparr>))) = (x, st')"
  using assms
  by (cases "exec (trace (launched c (executedCommands st) st)) c")
     (auto simp: Let_def split: if_splits)

lemma sequential_grows:
  "sequential_commands exec cs st = (x, st') \<Longrightarrow>
   \<exists>new. trace st' = trace st @ new \<and>
         executedCommands st' = executedCommands st @ completed new \<and>
         subseq (started new) (map name cs)"
proof (induction cs arbitrary: st x st')
  case Nil
  then show ?case by simp
next
  case (Cons c cs)
  from Cons.prems show ?case
  proof (cases rule: sequential_Cons_cases)
    case Skip
    from Cons.IH[OF Skip(3)] obtain new where
      "trace st' = trace st @ [DependencyCheck (name c) (executedCommands st) False] @ new"
      "executedCommands st' = executedCommands st @ completed new"
      "subseq (started new) (map name cs)" by auto
    then show ?thesis
      by (intro exI[of _ "[DependencyCheck (name c) (executedCommands st) False] @ new"]) auto
  next
    case (Continue r)
    from Cons.IH[OF Continue(4)] obtain new where
      "trace st' = trace st @ [DependencyCheck (name c) (executedCommands st) True,
          RunCommand (name c), Completed (name c), Pause 500] @ new"
      "executedCommands st' = executedCommands st @ [name c] @ completed new"
      "subseq (started new) (map name cs)" by auto
    then show ?thesis
      by (intro exI[of _ "[DependencyCheck (name c) (executedCommands st) True,
          RunCommand (name c), Completed (name c), Pause 500] @ new"]) auto
  qed auto
qed



lemma snap_Nil: "snap E []" by (simp add: snap_def)
lemma snap_skip: "snap E t \<Longrightarrow> snap E (DependencyCheck n E b # t)"
  unfolding snap_def by (auto simp: Cons_eq_append_conv)
lemma snap_other: "snap E t \<Longrightarrow> (\<forall>n ex b. e \<noteq> DependencyCheck n ex b) \<Longrightarrow> (\<forall>n. e \<noteq> Completed n) \<Longrightarrow> snap E (e # t)"
  unfolding snap_def by (cases e) (auto simp: Cons_eq_append_conv)
lemma snap_completed: "snap (E @ [n]) t \<Longrightarrow> snap E (Completed n # t)"
  unfolding snap_def by (auto simp: Cons_eq_append_conv)


lemma single_Nil: "single []" by (simp add: single_def)

lemma single_other:
  assumes "single t" "\<And>n. e \<noteq> RunCommand n"
  shows "single (e # t)"
  unfolding single_def
proof (intro allI impI)
  fix a n z assume eq: "e # t = a @ RunCommand n # z"
  show "(\<exists>a' ex. a = a' @ [DependencyCheck n ex True]) \<and> (z = [] \<or> (\<exists>z'. z = Completed n # z'))"
  proof (cases a)
    case Nil
    with eq assms(2) show ?thesis by simp
  next
    case (Cons e' a')
    with eq have "t = a' @ RunCommand n # z" by simp
    with assms(1) obtain a'' ex where "a' = a'' @ [DependencyCheck n ex True]"
      and z: "z = [] \<or> (\<exists>z'. z = Completed n # z')"
      unfolding single_def by blast
    with Cons have "a = (e' # a'') @ [DependencyCheck n ex True]" by simp
    with z show ?thesis by blast
  qed
qed

lemma single_run:
  assumes "single t" "t = [] \<or> (\<exists>t'. t = Completed n # t')"
  shows "single (DependencyCheck n ex True # RunCommand n # t)"
  unfolding single_def
proof (intro allI impI)
  fix a m z assume eq: "DependencyCheck n ex True # RunCommand n # t = a @ RunCommand m # z"
  show "(\<exists>a' ex. a = a' @ [DependencyCheck m ex True]) \<and> (z = [] \<or> (\<exists>z'. z = Completed m # z'))"
  proof (cases a)
    case Nil
    with eq show ?thesis by simp
  next
    case (Cons e1 a1)
    note a = this
    show ?thesis
    proof (cases a1)
      case Nil
      with a eq have "a = [] @ [DependencyCheck m ex True]" "z = t" "m = n" by auto
      with assms(2) show ?thesis by blast
    next
      case (Cons e2 a2)
      with a eq have "t = a2 @ RunCommand m # z" by simp
      with assms(1) obtain a'' ex' where "a2 = a'' @ [DependencyCheck m ex' True]"
        and z: "z = [] \<or> (\<exists>z'. z = Completed m # z')"
        unfolding single_def by blast
      with a Cons have "a = (e1 # e2 # a'') @ [DependencyCheck m ex' True]" by simp
      with z show ?thesis by blast
    qed
  qed
qed

lemma paused_Nil: "paused []" by (simp add: paused_def)

lemma paused_other:
  assumes "paused t" "\<And>n. e \<noteq> RunCommand n"
  shows "paused (e # t)"
  unfolding paused_def
proof (intro allI impI)
  fix a n b m z assume eq: "e # t = a @ RunCommand n # b @ RunCommand m # z"
  show "Pause 500 \<in> set b"
  proof (cases a)
    case Nil
    with eq assms(2) show ?thesis by simp
  next
    case (Cons e' a')
    with eq have "t = a' @ RunCommand n # b @ RunCommand m # z" by simp
    with assms(1) show ?thesis unfolding paused_def by blast
  qed
qed

lemma paused_run:
  assumes "paused t" "\<And>b m z. t = b @ RunCommand m # z \<Longrightarrow> Pause 500 \<in> set b"
  shows "paused (RunCommand n # t)"
  unfolding paused_def
proof (intro allI impI)
  fix a k b m z assume eq: "RunCommand n # t = a @ RunCommand k # b @ RunCommand m # z"
  show "Pause 500 \<in> set b"
  proof (cases a)
    case Nil
    with eq have "t = b @ RunCommand m # z" by simp
    then show ?thesis by (rule assms(2))
  next
    case (Cons e' a')
    with eq have "t = a' @ RunCommand k # b @ RunCommand m # z" by simp
    with assms(1) show ?thesis unfolding paused_def by blast
  qed
qed

lemma paused_block:
  assumes "paused t"
  shows "paused (DependencyCheck n ex True # RunCommand n # Completed n # Pause 500 # t)"
proof (rule paused_other[OF paused_run])
  show "paused (Completed n # Pause 500 # t)"
    by (intro paused_other assms) simp_all
next
  fix b m z assume "Completed n # Pause 500 # t = b @ RunCommand m # z"
  then show "Pause 500 \<in> set b"
    by (cases b; cases "tl b") auto
qed simp

lemma paused_last:
  "paused [DependencyCheck n ex True, RunCommand n]"
  "paused [DependencyCheck n ex True, RunCommand n, Completed n]"
  unfolding paused_def by (auto simp: Cons_eq_append_conv)

lemma sequential_invariants:
  "sequential_commands exec cs st = (x, st') \<Longrightarrow>
   \<exists>new. trace st' = trace st @ new \<and> snap (executedCommands st) new \<and> single new \<and> paused new"
proof (induction cs arbitrary: st x st')
  case Nil
  then show ?case by (simp add: snap_Nil single_Nil paused_Nil)
next
  case (Cons c cs)
  from Cons.prems show ?case
  proof (cases rule: sequential_Cons_cases)
    case Abort
    then show ?thesis
      by (auto intro!: snap_skip snap_Nil single_other single_Nil paused_other paused_Nil)
  next
    case Skip
    from Cons.IH[OF Skip(3)] obtain new where new:
      "trace st' = trace st @ [DependencyCheck (name c) (executedCommands st) False] @ new"
      "snap (executedCommands st) new" "single new" "paused new"
      by auto
    show ?thesis
      apply (rule exI[of _ "[DependencyCheck (name c) (executedCommands st) False] @ new"])
      using new by (auto intro!: snap_skip single_other paused_other)
  next
    case (Rejected e)
    then show ?thesis 
      using single_run[OF single_Nil, of "name c" "executedCommands st"] paused_last(1)
      by (auto intro!: snap_skip snap_other snap_Nil)
  next
    case Hang
    then show ?thesis 
      using single_run[OF single_Nil, of "name c" "executedCommands st"] paused_last(1)
      by (auto intro!: snap_skip snap_other snap_Nil)
  next
    case (Break r)
    then show ?thesis
      using single_run[OF single_other[OF single_Nil], of "Completed (name c)" "name c" "executedCommands st"]
        paused_last(2)
      by (auto intro!: snap_skip snap_other snap_completed snap_Nil)
  next
    case (Continue r)
    from Cons.IH[OF Continue(4)] obtain new where new:
      "trace st' = trace st @ [DependencyCheck (name c) (executedCommands st) True,
          RunCommand (name c), Completed (name c), Pause 500] @ new"
      "snap (executedCommands st @ [name c]) new" "single new" "paused new"
      by auto
    have "single (DependencyCheck (name c) (executedCommands st) True #
          RunCommand (name c) # Completed (name c) # Pause 500 # new)"
      by (rule single_run) (auto intro!: single_other new)
    then show ?thesis
      apply (intro exI[of _ "[DependencyCheck (name c) (executedCommands st) True,
          RunCommand (name c), Completed (name c), Pause 500] @ new"])
      using new by (auto intro!: snap_skip snap_other snap_completed paused_block)
  qed
qed


lemma final_stage_result [simp]: "final (stage_result sink stage st) = st"
  by (simp add: stage_result_def)

lemma runStage_sequential:
  assumes "\<not> stage_parallel stage" "commands \<noteq> []"
    and "sequential_commands exec commands initial_state = (x, st')"
  shows "final (runStage sink exec order (Some stage) commands stageName) = st'"
    and "settled (runStage sink exec order (Some stage) commands stageName) =
       (case x of Finished \<Rightarrow> settled (stage_result sink stage st')
        | Break \<Rightarrow> settled (stage_result sink stage st')
        | Return r \<Rightarrow> Fulfilled r | Throw e \<Rightarrow> Rejected e | Hang \<Rightarrow> NeverSettles)"
  using assms by (simp_all add: runStage_def split: loop_exit.splits)

lemma initial_simps [simp]:
  "trace initial_state = []" "executedCommands initial_state = []"
  "combinedOutput initial_state = []" "stageSuccess initial_state"
  by (simp_all add: initial_state_def)

lemma checks_append [simp]: "checks (a @ b) = checks a @ checks b"
  by (induction a rule: checks.induct) auto

lemma completed_map [simp]: "completed (map Completed ns) = ns"
  by (induction ns) auto
lemma started_map [simp]: "started (map Completed ns) = []"
  by (induction ns) auto
lemma checks_map [simp]: "checks (map Completed ns) = []"
  by (induction ns) auto

lemma mem_started: "n \<in> set (started t) \<longleftrightarrow> RunCommand n \<in> set t"
  by (induction t rule: started.induct) auto

lemma mem_completed: "n \<in> set (completed t) \<longleftrightarrow> Completed n \<in> set t"
  by (induction t rule: completed.induct) auto

lemma mem_checks: "DependencyCheck n ex b \<in> set t \<Longrightarrow> (n, b) \<in> set (checks t)"
  by (induction t rule: checks.induct) auto

lemma subseq_set_mono: "subseq xs ys \<Longrightarrow> set xs \<subseteq> set ys"
  by (induction rule: list_emb.induct) auto

text \<open>A name started once is started at one place.\<close>

lemma started_once:
  assumes "distinct (started t)" "t = a @ RunCommand n # z" "t = a' @ RunCommand n # z'"
  shows "a = a' \<and> z = z'"
  using assms
proof (induction a arbitrary: t a')
  case Nil
  show ?case
  proof (cases a')
    case Nil
    with Nil.prems show ?thesis by simp
  next
    case (Cons e a'')
    with Nil.prems have "e = RunCommand n" "z = a'' @ RunCommand n # z'" by simp_all
    with Nil.prems(1,2) show ?thesis by (simp add: mem_started)
  qed
next
  case (Cons e a)
  show ?case
  proof (cases a')
    case Nil
    with Cons.prems have "e = RunCommand n" "z' = a @ RunCommand n # z" by simp_all
    with Cons.prems(1,3) Nil show ?thesis by (simp add: mem_started)
  next
    case (Cons e' a'')
    with Cons.prems have e: "e' = e" and t: "a @ RunCommand n # z = a'' @ RunCommand n # z'"
      by simp_all
    from Cons.prems(1,2) have "distinct (started (a @ RunCommand n # z))"
      by (cases e) simp_all
    from Cons.IH[OF this refl t] e Cons show ?thesis by simp
  qed
qed

lemma after_call_Nil: "after_call []" by (simp add: after_call_def)

lemma after_call_other:
  assumes "after_call t" "\<And>n. e \<noteq> Completed n"
  shows "after_call (e # t)"
  unfolding after_call_def
proof (intro allI impI)
  fix a n z assume eq: "e # t = a @ Completed n # z"
  show "\<exists>a'. a = a' @ [RunCommand n]"
  proof (cases a)
    case Nil
    with eq assms(2) show ?thesis by simp
  next
    case (Cons e' a')
    with eq have "t = a' @ Completed n # z" by simp
    with assms(1) obtain a'' where "a' = a'' @ [RunCommand n]"
      unfolding after_call_def by blast
    with Cons have "a = (e' # a'') @ [RunCommand n]" by simp
    then show ?thesis by blast
  qed
qed

lemma after_call_return:
  assumes "after_call t"
  shows "after_call (RunCommand n # Completed n # t)"
  unfolding after_call_def
proof (intro allI impI)
  fix a m z assume eq: "RunCommand n # Completed n # t = a @ Completed m # z"
  show "\<exists>a'. a = a' @ [RunCommand m]"
  proof (cases a)
    case Nil
    with eq show ?thesis by simp
  next
    case (Cons e1 a1)
    note a = this
    show ?thesis
    proof (cases a1)
      case Nil
      with a eq have "a = [] @ [RunCommand m]" by auto
      then show ?thesis by blast
    next
      case (Cons e2 a2)
      with a eq have "t = a2 @ Completed m # z" by simp
      with assms obtain a'' where "a2 = a'' @ [RunCommand m]"
        unfolding after_call_def by blast
      with a Cons have "a = (e1 # e2 # a'') @ [RunCommand m]" by simp
      then show ?thesis by blast
    qed
  qed
qed

lemma answered_Nil: "answered exec cs h []" by (simp add: answered_def)

lemma answered_other:
  assumes "answered exec cs (h @ [e]) t" "\<And>n. e \<noteq> RunCommand n" "set cs \<subseteq> set cs'"
  shows "answered exec cs' h (e # t)"
  unfolding answered_def
proof (intro allI impI)
  fix a n z assume eq: "e # t = a @ RunCommand n # z"
  show "\<exists>c\<in>set cs'. name c = n \<and>
          ((\<exists>r. exec (h @ a @ [RunCommand n]) c = Fulfilled r) \<longleftrightarrow> Completed n \<in> set z)"
  proof (cases a)
    case Nil
    with eq assms(2) show ?thesis by simp
  next
    case (Cons e' a')
    with eq have "t = a' @ RunCommand n # z" "e' = e" by simp_all
    with assms(1) obtain c where "c \<in> set cs" "name c = n"
      "(\<exists>r. exec ((h @ [e]) @ a' @ [RunCommand n]) c = Fulfilled r) \<longleftrightarrow> Completed n \<in> set z"
      unfolding answered_def by blast
    with Cons \<open>e' = e\<close> assms(3) show ?thesis by auto
  qed
qed

lemma answered_run:
  assumes "answered exec cs (h @ [RunCommand (name c)]) t" "c \<in> set cs'" "set cs \<subseteq> set cs'"
    "(\<exists>r. exec (h @ [RunCommand (name c)]) c = Fulfilled r) \<longleftrightarrow> Completed (name c) \<in> set t"
  shows "answered exec cs' h (RunCommand (name c) # t)"
  unfolding answered_def
proof (intro allI impI)
  fix a n z assume eq: "RunCommand (name c) # t = a @ RunCommand n # z"
  show "\<exists>c\<in>set cs'. name c = n \<and>
          ((\<exists>r. exec (h @ a @ [RunCommand n]) c = Fulfilled r) \<longleftrightarrow> Completed n \<in> set z)"
  proof (cases a)
    case Nil
    with eq have "n = name c" "z = t" by simp_all
    with Nil assms(2,4) show ?thesis by auto
  next
    case (Cons e' a')
    with eq have "t = a' @ RunCommand n # z" "e' = RunCommand (name c)" by simp_all
    with assms(1) obtain c' where "c' \<in> set cs" "name c' = n"
      "(\<exists>r. exec ((h @ [RunCommand (name c)]) @ a' @ [RunCommand n]) c' = Fulfilled r)
         \<longleftrightarrow> Completed n \<in> set z"
      unfolding answered_def by blast
    with Cons \<open>e' = RunCommand (name c)\<close> assms(3) show ?thesis by auto
  qed
qed

lemma sequential_calls:
  "sequential_commands exec cs st = (x, st') \<Longrightarrow>
   \<exists>new. trace st' = trace st @ new \<and> after_call new \<and> answered exec cs (trace st) new"
proof (induction cs arbitrary: st x st')
  case Nil
  then show ?case by (simp add: after_call_Nil answered_Nil)
next
  case (Cons c cs)
  let ?D = "\<lambda>b. DependencyCheck (name c) (executedCommands st) b"
  from Cons.prems show ?case
  proof (cases rule: sequential_Cons_cases)
    case Abort
    then show ?thesis
      by (auto intro!: after_call_other after_call_Nil answered_other[where cs = "[]"] answered_Nil)
  next
    case Skip
    from Cons.IH[OF Skip(3)] obtain new where new:
      "trace st' = trace st @ [?D False] @ new"
      "after_call new" "answered exec cs (trace st @ [?D False]) new"
      by auto
    have "answered exec (c # cs) (trace st) (?D False # new)"
      by (rule answered_other[OF new(3)]) auto
    with new show ?thesis
      by (intro exI[of _ "[?D False] @ new"]) (auto intro!: after_call_other)
  next
    case (Rejected e)
    have "answered exec (c # cs) (trace st) [?D True, RunCommand (name c)]"
      by (rule answered_other[where cs = "c # cs"], rule answered_run[where cs = "[]"])
         (use Rejected in \<open>auto intro!: answered_Nil\<close>)
    with Rejected show ?thesis
      by (auto intro!: after_call_other after_call_Nil)
  next
    case Hang
    have "answered exec (c # cs) (trace st) [?D True, RunCommand (name c)]"
      by (rule answered_other[where cs = "c # cs"], rule answered_run[where cs = "[]"])
         (use Hang in \<open>auto intro!: answered_Nil\<close>)
    with Hang show ?thesis
      by (auto intro!: after_call_other after_call_Nil)
  next
    case (Break r)
    have "answered exec (c # cs) (trace st) [?D True, RunCommand (name c), Completed (name c)]"
      by (rule answered_other[where cs = "c # cs"], rule answered_run[where cs = "[]"],
          rule answered_other[where cs = "[]"])
         (use Break in \<open>auto intro!: answered_Nil\<close>)
    moreover have "after_call [?D True, RunCommand (name c), Completed (name c)]"
      by (intro after_call_other after_call_return after_call_Nil) simp
    ultimately show ?thesis using Break by auto
  next
    case (Continue r)
    from Cons.IH[OF Continue(4)] obtain new where new:
      "trace st' = trace st @ [?D True, RunCommand (name c), Completed (name c), Pause 500] @ new"
      "after_call new"
      "answered exec cs (trace st @ [?D True, RunCommand (name c), Completed (name c), Pause 500]) new"
      by auto
    have "answered exec cs ((trace st @ [?D True, RunCommand (name c), Completed (name c)]) @ [Pause 500]) new"
      using new(3) by simp
    then have "answered exec cs (trace st @ [?D True, RunCommand (name c), Completed (name c)])
            (Pause 500 # new)"
      by (rule answered_other) simp_all
    then have "answered exec cs ((trace st @ [?D True, RunCommand (name c)]) @ [Completed (name c)])
            (Pause 500 # new)"
      by simp
    then have "answered exec cs (trace st @ [?D True, RunCommand (name c)])
            (Completed (name c) # Pause 500 # new)"
      by (rule answered_other) simp_all
    then have "answered exec cs ((trace st @ [?D True]) @ [RunCommand (name c)])
            (Completed (name c) # Pause 500 # new)"
      by simp
    then have "answered exec (c # cs) (trace st @ [?D True])
            (RunCommand (name c) # Completed (name c) # Pause 500 # new)"
      by (rule answered_run) (use Continue(2) in auto)
    then have "answered exec (c # cs) (trace st)
            (?D True # RunCommand (name c) # Completed (name c) # Pause 500 # new)"
      by (rule answered_other) simp_all
    moreover have "after_call (?D True # RunCommand (name c) # Completed (name c) # Pause 500 # new)"
      by (intro after_call_other after_call_return new(2)) simp_all
    ultimately show ?thesis using new(1)
      by (intro exI[of _ "[?D True, RunCommand (name c), Completed (name c), Pause 500] @ new"]) simp
  qed
qed
lemma sequential_checks:
  "sequential_commands exec cs st = (x, st') \<Longrightarrow>
   \<exists>new. trace st' = trace st @ new \<and>
         prefix (map fst (checks new)) (map name cs) \<and>
         started new = passed (checks new)"
proof (induction cs arbitrary: st x st')
  case Nil
  then show ?case by (simp add: passed_def)
next
  case (Cons c cs)
  from Cons.prems show ?case
  proof (cases rule: sequential_Cons_cases)
    case Skip
    from Cons.IH[OF Skip(3)] obtain new where
      "trace st' = trace st @ [DependencyCheck (name c) (executedCommands st) False] @ new"
      "prefix (map fst (checks new)) (map name cs)"
      "started new = passed (checks new)" by auto
    then show ?thesis
      by (intro exI[of _ "[DependencyCheck (name c) (executedCommands st) False] @ new"])
         (auto simp: passed_def)
  next
    case (Continue r)
    from Cons.IH[OF Continue(4)] obtain new where
      "trace st' = trace st @ [DependencyCheck (name c) (executedCommands st) True,
          RunCommand (name c), Completed (name c), Pause 500] @ new"
      "prefix (map fst (checks new)) (map name cs)"
      "started new = passed (checks new)" by auto
    then show ?thesis
      by (intro exI[of _ "[DependencyCheck (name c) (executedCommands st) True,
          RunCommand (name c), Completed (name c), Pause 500] @ new"]) (auto simp: passed_def)
  qed (auto simp: passed_def)
qed




lemma requires_unsatisfied:
  "requires c n \<Longrightarrow> n \<notin> set ex \<Longrightarrow> \<not> areDependenciesSatisfied c ex"
  by (auto simp: requires_def areDependenciesSatisfied_def list_all_iff
      split: option.splits depends.splits)

lemma process_results_keeps [simp]:
  "trace (process_results commands rs st) = trace st"
  "executedCommands (process_results commands rs st) = executedCommands st"
  by (induction commands rs st rule: process_results.induct) simp_all

lemma passed_Cons: "passed ((m, b) # cs) = (if b then m # passed cs else passed cs)"
  by (simp add: passed_def)
lemma passed_fst: "n \<in> set (passed cs) \<Longrightarrow> n \<in> fst ` set cs"
  by (induction cs) (simp_all add: passed_def split: if_splits, blast)
lemma refused_not_started:
  "distinct (map fst cs) \<Longrightarrow> (n, False) \<in> set cs \<Longrightarrow> n \<notin> set (passed cs)"
proof (induction cs)
  case Nil
  then show ?case by simp
next
  case (Cons a cs)
  obtain m b where a: "a = (m, b)" by (cases a)
  show ?case
  proof (cases "(n, False) = a")
    case True
    with a have "m = n" "b = False" by simp_all
    moreover from Cons.prems(1) a have "m \<notin> fst ` set cs" by simp
    ultimately show ?thesis using a passed_fst[of n cs] by (auto simp: passed_Cons)
  next
    case False
    with Cons.prems have in_cs: "(n, False) \<in> set cs" and d: "distinct (map fst cs)" by simp_all
    then have ih: "n \<notin> set (passed cs)" by (rule Cons.IH[rotated])
    from Cons.prems(1) a in_cs have "m \<noteq> n" by (auto simp: image_iff)
    with ih a show ?thesis by (simp add: passed_Cons)
  qed
qed

lemma distinct_passed: "distinct (map fst cs) \<Longrightarrow> distinct (passed cs)"
  unfolding passed_def by (rule distinct_map_filter)

lemma resume_fulfilled: "resume l st = (if fulfilled l then pushed (fst l) st else st)"
  by (induction l st rule: resume.induct) simp_all

lemma fulfilled_iff: "fulfilled (c, Awaiting p) \<longleftrightarrow> (\<exists>r. p = Fulfilled r)"
  by (cases p) simp_all

lemma settle_commands_trace:
  "trace (settle_commands ls order st) = trace st @ map Completed (pushes ls order) \<and>
   executedCommands (settle_commands ls order st) = executedCommands st @ pushes ls order"
  unfolding settle_commands_def pushes_def
  by (induction order arbitrary: st) (simp_all add: resume_fulfilled)

lemma mem_pushes:
  "n \<in> set (pushes ls order) \<longleftrightarrow>
   (\<exists>i \<in> set order. i < length ls \<and> fulfilled (ls ! i) \<and> name (fst (ls ! i)) = n)"
  by (auto simp: pushes_def)

lemma fulfilled_awaited:
  "i < length ls \<Longrightarrow> fulfilled (ls ! i) \<Longrightarrow> name (fst (ls ! i)) \<in> set (awaited ls)"
  by (induction ls arbitrary: i rule: awaited.induct) (auto simp: nth_Cons split: nat.splits)

lemma completion_order_set: "completion_order order cs \<Longrightarrow> set order = {..<length cs}"
proof -
  assume "completion_order order cs"
  then have "set (sort order) = set [0..<length cs]" by (simp add: completion_order_def)
  then show ?thesis by (simp add: atLeast0LessThan)
qed

lemma launch_commands_trace:
  "launch_commands exec cs st = (ls, st') \<Longrightarrow>
   \<exists>new. trace st' = trace st @ new \<and>
         executedCommands st' = executedCommands st \<and>
         checks new = map (\<lambda>c. (name c, areDependenciesSatisfied c (executedCommands st))) cs \<and>
         started new = passed (checks new) \<and>
         started new = awaited ls \<and> completed new = [] \<and> map fst ls = cs \<and>
         (\<forall>n ex b. DependencyCheck n ex b \<in> set new \<longrightarrow> ex = executedCommands st)"
proof (induction cs arbitrary: st ls st')
  case Nil
  then show ?case by (simp add: passed_def)
next
  case (Cons c cs)
  show ?case
  proof (cases "areDependenciesSatisfied c (executedCommands st)")
    case False
    obtain ls' st'' where rest:
      "launch_commands exec cs (checked c (executedCommands st) False st) = (ls', st'')"
      by (cases "launch_commands exec cs (checked c (executedCommands st) False st)")
    from Cons.IH[OF rest] obtain new where new:
      "trace st'' = trace st @ [DependencyCheck (name c) (executedCommands st) False] @ new"
      "executedCommands st'' = executedCommands st"
      "checks new = map (\<lambda>c. (name c, areDependenciesSatisfied c (executedCommands st))) cs"
      "started new = passed (checks new)"
      "started new = awaited ls'" "completed new = []" "map fst ls' = cs"
      "\<forall>n ex b. DependencyCheck n ex b \<in> set new \<longrightarrow> ex = executedCommands st"
      by auto
    from Cons.prems False rest have "st' = st''" "\<exists>r. ls = (c, Refused r) # ls'"
      by (auto simp: Let_def)
    with new False show ?thesis
      by (intro exI[of _ "[DependencyCheck (name c) (executedCommands st) False] @ new"])
         (auto simp: passed_def)
  next
    case True
    obtain ls' st'' where rest:
      "launch_commands exec cs (launched c (executedCommands st) st) = (ls', st'')"
      by (cases "launch_commands exec cs (launched c (executedCommands st) st)")
    from Cons.IH[OF rest] obtain new where new:
      "trace st'' = trace st @ [DependencyCheck (name c) (executedCommands st) True,
           RunCommand (name c)] @ new"
      "executedCommands st'' = executedCommands st"
      "checks new = map (\<lambda>c. (name c, areDependenciesSatisfied c (executedCommands st))) cs"
      "started new = passed (checks new)"
      "started new = awaited ls'" "completed new = []" "map fst ls' = cs"
      "\<forall>n ex b. DependencyCheck n ex b \<in> set new \<longrightarrow> ex = executedCommands st"
      by auto
    from Cons.prems True rest have "st' = st''" "\<exists>p. ls = (c, Awaiting p) # ls'"
      by (auto simp: Let_def)
    with new True show ?thesis
      by (intro exI[of _ "[DependencyCheck (name c) (executedCommands st) True,
           RunCommand (name c)] @ new"])
         (auto simp: passed_def)
  qed
qed

text \<open>
  Every call of \<^verbatim>\<open>runCommand\<close> made by the launches is the call for the command at some
  position, and the promise awaited at that position is the one \<open>exec\<close> gives for the
  events up to the call.
\<close>

lemma launch_commands_calls:
  "launch_commands exec cs st = (ls, st') \<Longrightarrow> trace st' = trace st @ a @ RunCommand n # z \<Longrightarrow>
   \<exists>i<length cs. name (cs ! i) = n \<and>
      ls ! i = (cs ! i, Awaiting (exec (trace st @ a @ [RunCommand n]) (cs ! i)))"
proof (induction cs arbitrary: st ls st' a)
  case Nil
  then show ?case by simp
next
  case (Cons c cs)
  show ?case
  proof (cases "areDependenciesSatisfied c (executedCommands st)")
    case False
    let ?st = "checked c (executedCommands st) False st"
    obtain ls' st'' where rest: "launch_commands exec cs ?st = (ls', st'')"
      by (cases "launch_commands exec cs ?st")
    from Cons.prems(1) False rest have st': "st' = st''" and ls: "tl ls = ls'" "ls \<noteq> []"
      by (auto simp: Let_def)
    from launch_commands_trace[OF rest] obtain new where
      "trace st'' = trace st @ DependencyCheck (name c) (executedCommands st) False # new"
      by auto
    with Cons.prems(2) st' have
      "DependencyCheck (name c) (executedCommands st) False # new = a @ RunCommand n # z"
      by simp
    then obtain a' where a: "a = DependencyCheck (name c) (executedCommands st) False # a'"
      and new: "new = a' @ RunCommand n # z"
      by (cases a) auto
    from Cons.prems(2) st' a have "trace st'' = trace ?st @ a' @ RunCommand n # z" by simp
    from Cons.IH[OF rest this] obtain i where i: "i < length cs" "name (cs ! i) = n"
      "ls' ! i = (cs ! i, Awaiting (exec (trace ?st @ a' @ [RunCommand n]) (cs ! i)))"
      by blast
    from i ls a have "Suc i < length (c # cs) \<and> name ((c # cs) ! Suc i) = n \<and>
      ls ! Suc i = ((c # cs) ! Suc i,
         Awaiting (exec (trace st @ a @ [RunCommand n]) ((c # cs) ! Suc i)))"
      by (cases ls) simp_all
    then show ?thesis by blast
  next
    case True
    let ?st = "launched c (executedCommands st) st"
    obtain ls' st'' where rest: "launch_commands exec cs ?st = (ls', st'')"
      by (cases "launch_commands exec cs ?st")
    from Cons.prems(1) True rest have st': "st' = st''"
      and ls: "ls = (c, Awaiting (exec (trace ?st) c)) # ls'"
      by (auto simp: Let_def)
    from launch_commands_trace[OF rest] obtain new where
      "trace st'' = trace st @ DependencyCheck (name c) (executedCommands st) True #
         RunCommand (name c) # new"
      by auto
    with Cons.prems(2) st' have eq:
      "DependencyCheck (name c) (executedCommands st) True # RunCommand (name c) # new =
         a @ RunCommand n # z"
      by simp
    show ?thesis
    proof (cases "a = [DependencyCheck (name c) (executedCommands st) True]")
      case True
      with eq have "n = name c" by simp
      with True ls have "0 < length (c # cs) \<and> name ((c # cs) ! 0) = n \<and>
        ls ! 0 = ((c # cs) ! 0, Awaiting (exec (trace st @ a @ [RunCommand n]) ((c # cs) ! 0)))"
        by simp
      then show ?thesis by blast
    next
      case False
      with eq obtain a' where
        a: "a = DependencyCheck (name c) (executedCommands st) True # RunCommand (name c) # a'"
        by (cases a; cases "tl a") auto
      from Cons.prems(2) st' a have "trace st'' = trace ?st @ a' @ RunCommand n # z" by simp
      from Cons.IH[OF rest this] obtain i where i: "i < length cs" "name (cs ! i) = n"
        "ls' ! i = (cs ! i, Awaiting (exec (trace ?st @ a' @ [RunCommand n]) (cs ! i)))"
        by blast
      from i ls a have "Suc i < length (c # cs) \<and> name ((c # cs) ! Suc i) = n \<and>
        ls ! Suc i = ((c # cs) ! Suc i,
           Awaiting (exec (trace st @ a @ [RunCommand n]) ((c # cs) ! Suc i)))"
        by simp
      then show ?thesis by blast
    qed
  qed
qed

lemma snap_launch:
  assumes "\<forall>n ex b. DependencyCheck n ex b \<in> set new \<longrightarrow> ex = []" "completed new = []"
  shows "snap [] (new @ map Completed ns)"
  unfolding snap_def
proof (intro allI impI)
  fix a n ex b z assume "new @ map Completed ns = a @ DependencyCheck n ex b # z"
  then obtain us where
    "(new = a @ us \<and> us @ map Completed ns = DependencyCheck n ex b # z) \<or>
     (new @ us = a \<and> map Completed ns = us @ DependencyCheck n ex b # z)"
    unfolding append_eq_append_conv2 by blast
  then show "ex = [] @ completed a"
  proof
    assume h: "new = a @ us \<and> us @ map Completed ns = DependencyCheck n ex b # z"
    then have "us \<noteq> []" by (cases ns) auto
    with h have "DependencyCheck n ex b \<in> set new" by (cases us) auto
    with assms(1) have "ex = []" by blast
    moreover from h assms(2) have "completed a = []" by simp
    ultimately show ?thesis by simp
  next
    assume "new @ us = a \<and> map Completed ns = us @ DependencyCheck n ex b # z"
    then have "DependencyCheck n ex b \<in> set (map Completed ns)" by simp
    then show ?thesis by auto
  qed
qed

lemma split_before_returns:
  assumes "new @ map Completed ns = a @ RunCommand n # z"
  shows "\<exists>z0. new = a @ RunCommand n # z0 \<and> z = z0 @ map Completed ns"
proof -
  from assms obtain us where
    "(new = a @ us \<and> us @ map Completed ns = RunCommand n # z) \<or>
     (new @ us = a \<and> map Completed ns = us @ RunCommand n # z)"
    unfolding append_eq_append_conv2 by blast
  then show ?thesis
  proof
    assume h: "new = a @ us \<and> us @ map Completed ns = RunCommand n # z"
    then have "us \<noteq> []" by (cases ns) auto
    with h obtain z0 where "us = RunCommand n # z0" "z = z0 @ map Completed ns"
      by (cases us) auto
    with h show ?thesis by blast
  next
    assume "new @ us = a \<and> map Completed ns = us @ RunCommand n # z"
    then have "RunCommand n \<in> set (map Completed ns)" by simp
    then show ?thesis by auto
  qed
qed

lemma split_in_returns:
  assumes "new @ map Completed ns = a @ Completed n # z" "completed new = []"
  shows "set new \<subseteq> set a \<and> n \<in> set ns"
proof -
  from assms(1) obtain us where
    "(new = a @ us \<and> us @ map Completed ns = Completed n # z) \<or>
     (new @ us = a \<and> map Completed ns = us @ Completed n # z)"
    unfolding append_eq_append_conv2 by blast
  then show ?thesis
  proof
    assume h: "new = a @ us \<and> us @ map Completed ns = Completed n # z"
    show ?thesis
    proof (cases us)
      case Nil
      with h show ?thesis by auto
    next
      case (Cons e us')
      with h have "Completed n \<in> set new" by auto
      with assms(2) show ?thesis by (simp flip: mem_completed)
    qed
  next
    assume h: "new @ us = a \<and> map Completed ns = us @ Completed n # z"
    then have "Completed n \<in> set (map Completed ns)" by simp
    then have "n \<in> set ns" by auto
    with h show ?thesis by auto
  qed
qed
text \<open>What a parallel stage leaves behind.\<close>

lemma runStage_parallel:
  assumes ne: "commands \<noteq> []" and par: "stage_parallel stage"
    and R: "R = runStage sink exec order (Some stage) commands stageName"
    and launch: "launch_commands exec commands initial_state = (ls, st1)"
  shows "trace (final R) = trace st1 @ map Completed (pushes ls order)"
    and "executedCommands (final R) = pushes ls order"
proof -
  have "trace (final R) = trace (settle_commands ls order st1)"
    "executedCommands (final R) = executedCommands (settle_commands ls order st1)"
    unfolding R using par ne launch
    by (simp_all add: runStage_def Let_def split: option.splits)
  moreover from launch_commands_trace[OF launch] have "executedCommands st1 = []" by auto
  ultimately show "trace (final R) = trace st1 @ map Completed (pushes ls order)"
    and "executedCommands (final R) = pushes ls order"
    by (simp_all add: settle_commands_trace)
qed

lemma parallel_answered:
  assumes d: "distinct (map name commands)" and ord: "completion_order order commands"
    and launch: "launch_commands exec commands initial_state = (ls, st1)"
  shows "answered exec commands [] (trace st1 @ map Completed (pushes ls order))"
  unfolding answered_def
proof (intro allI impI)
  fix a n z assume "trace st1 @ map Completed (pushes ls order) = a @ RunCommand n # z"
  from split_before_returns[OF this] obtain z0 where
    new: "trace st1 = a @ RunCommand n # z0" and z: "z = z0 @ map Completed (pushes ls order)"
    by blast
  from launch_commands_trace[OF launch] have fst: "map fst ls = commands"
    and none: "completed (trace st1) = []"
    by auto
  from fst have len: "length ls = length commands" by (metis length_map)
  from launch_commands_calls[OF launch, of a n z0] new obtain i where
    i: "i < length commands" "name (commands ! i) = n"
    "ls ! i = (commands ! i, Awaiting (exec (a @ [RunCommand n]) (commands ! i)))"
    by auto
  from none new have "Completed n \<notin> set z0"
    by (auto simp flip: mem_completed)
  with z have in_z: "Completed n \<in> set z \<longleftrightarrow> n \<in> set (pushes ls order)" by auto
  have "n \<in> set (pushes ls order) \<longleftrightarrow> fulfilled (ls ! i)"
  proof
    assume "n \<in> set (pushes ls order)"
    then obtain j where j: "j < length ls" "fulfilled (ls ! j)" "name (fst (ls ! j)) = n"
      unfolding mem_pushes by blast
    from j(1) fst have "fst (ls ! j) = commands ! j" by (metis nth_map)
    with j(3) i(2) have same: "map name commands ! j = map name commands ! i"
      using j(1) i(1) len by simp
    from d j(1) i(1) len
    have "(map name commands ! j = map name commands ! i) = (j = i)"
      by (intro nth_eq_iff_index_eq) simp_all
    with same have "j = i" by simp
    with j(2) show "fulfilled (ls ! i)" by simp
  next
    assume f: "fulfilled (ls ! i)"
    from completion_order_set[OF ord] i(1) have "i \<in> set order" by simp
    moreover from i(3) have "name (fst (ls ! i)) = name (commands ! i)" by simp
    ultimately show "n \<in> set (pushes ls order)"
      unfolding mem_pushes using f i(1,2) len by auto
  qed
  with in_z i(3) have "(\<exists>r. exec (a @ [RunCommand n]) (commands ! i) = Fulfilled r) \<longleftrightarrow>
      Completed n \<in> set z"
    by (simp add: fulfilled_iff)
  with i(1,2) show "\<exists>c\<in>set commands. name c = n \<and>
       ((\<exists>r. exec ([] @ a @ [RunCommand n]) c = Fulfilled r) \<longleftrightarrow> Completed n \<in> set z)"
    by (intro bexI[of _ "commands ! i"]) simp_all
qed

text \<open>What both branches leave behind, for a stage with commands.\<close>

lemma runStage_trace:
  assumes ne: "commands \<noteq> []"
    and R: "R = runStage sink exec order (Some stage) commands stageName"
    and t: "t = trace (final R)"
  shows "executedCommands (final R) = completed t"
    and "\<And>a n z. t = a @ Completed n # z \<Longrightarrow> RunCommand n \<in> set a"
    and "started t = passed (checks t)"
    and "prefix (map fst (checks t)) (map name commands)"
    and "snap [] t"
    and "distinct (map name commands) \<Longrightarrow> completion_order order commands \<Longrightarrow>
         answered exec commands [] t"
    and "stage_parallel stage \<Longrightarrow>
         checks t = map (\<lambda>c. (name c, areDependenciesSatisfied c [])) commands"
proof -
  have "executedCommands (final R) = completed t \<and>
    (\<forall>a n z. t = a @ Completed n # z \<longrightarrow> RunCommand n \<in> set a) \<and>
    started t = passed (checks t) \<and>
    prefix (map fst (checks t)) (map name commands) \<and>
    snap [] t \<and>
    (distinct (map name commands) \<longrightarrow> completion_order order commands \<longrightarrow>
         answered exec commands [] t) \<and>
    (stage_parallel stage \<longrightarrow>
         checks t = map (\<lambda>c. (name c, areDependenciesSatisfied c [])) commands)"
  proof (cases "stage_parallel stage")
    case False
    obtain x st' where run: "sequential_commands exec commands initial_state = (x, st')"
      by (cases "sequential_commands exec commands initial_state")
    have fin: "final R = st'"
      unfolding R using runStage_sequential(1)[OF False ne run] .
    have t': "t = trace st'" unfolding t fin ..
    from sequential_calls[OF run] have ac: "after_call t" and an: "answered exec commands [] t"
      unfolding t' by auto
    have call: "RunCommand n \<in> set a" if "t = a @ Completed n # z" for a n z
    proof -
      from ac that obtain a' where "a = a' @ [RunCommand n]"
        unfolding after_call_def by blast
      then show ?thesis by simp
    qed
    from sequential_grows[OF run] have ex: "executedCommands st' = completed t"
      unfolding t' by auto
    from sequential_checks[OF run] have chk: "started t = passed (checks t)"
      "prefix (map fst (checks t)) (map name commands)"
      unfolding t' by auto
    from sequential_invariants[OF run] have sn: "snap [] t"
      unfolding t' by auto
    show ?thesis
      unfolding fin
      apply (intro conjI)
      subgoal by (rule ex)
      subgoal using call by blast
      subgoal by (rule chk(1))
      subgoal by (rule chk(2))
      subgoal by (rule sn)
      subgoal using an by blast
      subgoal using False by blast
      done
  next
    case True
    obtain ls st1 where launch: "launch_commands exec commands initial_state = (ls, st1)"
      by (cases "launch_commands exec commands initial_state")
    note fin = runStage_parallel[OF ne True R launch]
    from launch_commands_trace[OF launch] have new:
      "checks (trace st1) = map (\<lambda>c. (name c, areDependenciesSatisfied c [])) commands"
      "started (trace st1) = passed (checks (trace st1))" "started (trace st1) = awaited ls"
      "completed (trace st1) = []"
      "\<forall>n ex b. DependencyCheck n ex b \<in> set (trace st1) \<longrightarrow> ex = []"
      by auto
    have t': "t = trace st1 @ map Completed (pushes ls order)"
      unfolding t fin ..
    have call: "RunCommand n \<in> set a" if "t = a @ Completed n # z" for a n z
    proof -
      from that t' have "trace st1 @ map Completed (pushes ls order) = a @ Completed n # z"
        by simp
      from split_in_returns[OF this new(4)] have sub: "set (trace st1) \<subseteq> set a"
        and n: "n \<in> set (pushes ls order)"
        by simp_all
      from n have "n \<in> set (awaited ls)"
        unfolding mem_pushes using fulfilled_awaited by blast
      with new(3) have "RunCommand n \<in> set (trace st1)"
        using mem_started[of n "trace st1"] by simp
      with sub show ?thesis by blast
    qed
    have sn: "snap [] t"
      unfolding t' by (rule snap_launch) (use new in auto)
    have ex: "executedCommands (final R) = completed t"
      unfolding t' fin using new(4) by simp
    have st: "started t = passed (checks t)"
      unfolding t' using new(2) by simp
    have chk: "checks t = map (\<lambda>c. (name c, areDependenciesSatisfied c [])) commands"
      unfolding t' using new(1) by simp
    then have pre: "prefix (map fst (checks t)) (map name commands)"
      by (simp add: comp_def)
    have an: "answered exec commands [] t"
      if "distinct (map name commands)" "completion_order order commands"
      unfolding t' using that launch by (rule parallel_answered)
    show ?thesis
      apply (intro conjI)
      subgoal by (rule ex)
      subgoal using call by blast
      subgoal by (rule st)
      subgoal by (rule pre)
      subgoal by (rule sn)
      subgoal using an by blast
      subgoal using chk by blast
      done
  qed
  note all = this
  show "executedCommands (final R) = completed t"
    by (rule all[THEN conjunct1])
  show "\<And>a n z. t = a @ Completed n # z \<Longrightarrow> RunCommand n \<in> set a"
    using all[THEN conjunct2, THEN conjunct1] by blast
  show "started t = passed (checks t)"
    by (rule all[THEN conjunct2, THEN conjunct2, THEN conjunct1])
  show "prefix (map fst (checks t)) (map name commands)"
    by (rule all[THEN conjunct2, THEN conjunct2, THEN conjunct2, THEN conjunct1])
  show "snap [] t"
    by (rule all[THEN conjunct2, THEN conjunct2, THEN conjunct2, THEN conjunct2, THEN conjunct1])
  show "distinct (map name commands) \<Longrightarrow> completion_order order commands \<Longrightarrow>
         answered exec commands [] t"
    using all[THEN conjunct2, THEN conjunct2, THEN conjunct2, THEN conjunct2, THEN conjunct2,
        THEN conjunct1] by blast
  show "stage_parallel stage \<Longrightarrow>
         checks t = map (\<lambda>c. (name c, areDependenciesSatisfied c [])) commands"
    using all[THEN conjunct2, THEN conjunct2, THEN conjunct2, THEN conjunct2, THEN conjunct2,
        THEN conjunct2] by blast
qed

text \<open>
  C9. In both modes the names on \<^verbatim>\<open>executedCommands\<close> are the names whose call of
  \<^verbatim>\<open>runCommand\<close> returned, in the order of the returns, and every return follows the call
  for that name; the calls made are those whose dependency check passed. With distinct
  names and a completion order that lists every command: for every call of
  \<^verbatim>\<open>runCommand\<close> in the run, the name of the command is on \<^verbatim>\<open>executedCommands\<close> at the end
  exactly when the promise of that call is fulfilled, whatever the result says; and a
  command whose check failed is never on the list, so no check of the run sees its name
  and no command that depends on it is satisfied. In a parallel stage every command is
  checked once, against the empty list.
\<close>

theorem executed_exactly_returned:
  assumes ne: "commands \<noteq> []"
    and ord: "completion_order order commands"
    and R: "R = runStage sink exec order (Some stage) commands stageName"
    and t: "t = trace (final R)"
  shows "executedCommands (final R) = completed t \<and>
    (\<forall>a n z. t = a @ Completed n # z \<longrightarrow> RunCommand n \<in> set a) \<and>
    started t = passed (checks t) \<and>
    (stage_parallel stage \<longrightarrow>
       checks t = map (\<lambda>c. (name c, areDependenciesSatisfied c [])) commands \<and>
       (\<forall>n ex b. DependencyCheck n ex b \<in> set t \<longrightarrow> ex = [])) \<and>
    (distinct (map name commands) \<longrightarrow>
       (\<forall>a c z. c \<in> set commands \<and> t = a @ RunCommand (name c) # z \<longrightarrow>
          ((\<exists>r. exec (a @ [RunCommand (name c)]) c = Fulfilled r) \<longleftrightarrow>
           name c \<in> set (executedCommands (final R)))) \<and>
       (\<forall>n ex. DependencyCheck n ex False \<in> set t \<longrightarrow>
          n \<notin> set (executedCommands (final R)) \<and>
          (\<forall>m ex' b c. DependencyCheck m ex' b \<in> set t \<and> requires c n \<longrightarrow>
             n \<notin> set ex' \<and> \<not> areDependenciesSatisfied c ex')))"
proof -
  note f1 = runStage_trace(1)[OF ne R t]
  note f2 = runStage_trace(2)[OF ne R t]
  note f3 = runStage_trace(3)[OF ne R t]
  note f4 = runStage_trace(4)[OF ne R t]
  note f5 = runStage_trace(5)[OF ne R t]
  note f6 = runStage_trace(6)[OF ne R t _ ord]
  note f7 = runStage_trace(7)[OF ne R t]
  have once: "distinct (started t)" if "distinct (map name commands)"
  proof -
    from f4 that have "distinct (map fst (checks t))" by (auto simp: prefix_def)
    then show ?thesis unfolding f3 by (rule distinct_passed)
  qed
  have called: "RunCommand n \<in> set t" if "n \<in> set (executedCommands (final R))" for n
  proof -
    from that f1 have "Completed n \<in> set t" by (simp add: mem_completed)
    then obtain a z where "t = a @ Completed n # z" by (auto dest: split_list)
    from f2[OF this] this show ?thesis by simp
  qed
  have exact: "(\<exists>r. exec (a @ [RunCommand (name c)]) c = Fulfilled r) \<longleftrightarrow>
           name c \<in> set (executedCommands (final R))"
    if d: "distinct (map name commands)" and c: "c \<in> set commands"
      and split: "t = a @ RunCommand (name c) # z"
    for a c z
  proof -
    note an = f6[OF d, unfolded answered_def, rule_format, OF split]
    then obtain c' where c': "c' \<in> set commands" "name c' = name c"
      "(\<exists>r. exec (a @ [RunCommand (name c)]) c' = Fulfilled r) \<longleftrightarrow> Completed (name c) \<in> set z"
      by auto
    from d have "inj_on name (set commands)" by (simp add: distinct_map)
    from inj_onD[OF this c'(2) c'(1) c] have "c' = c" .
    have "Completed (name c) \<in> set z" if "Completed (name c) \<in> set t"
    proof -
      from that obtain a1 z1 where s1: "t = a1 @ Completed (name c) # z1"
        by (auto dest: split_list)
      from f2[OF this] obtain a2 z2 where "a1 = a2 @ RunCommand (name c) # z2"
        by (auto dest: split_list)
      with s1 have "t = a2 @ RunCommand (name c) # (z2 @ Completed (name c) # z1)" by simp
      from started_once[OF once[OF d] split this] show ?thesis by simp
    qed
    with split have "Completed (name c) \<in> set z \<longleftrightarrow> Completed (name c) \<in> set t" by auto
    with c'(3) \<open>c' = c\<close> f1 show ?thesis by (simp add: mem_completed)
  qed
  have skip: "n \<notin> set (executedCommands (final R)) \<and>
          (\<forall>m ex' b c. DependencyCheck m ex' b \<in> set t \<and> requires c n \<longrightarrow>
             n \<notin> set ex' \<and> \<not> areDependenciesSatisfied c ex')"
    if d: "distinct (map name commands)" and m: "DependencyCheck n ex False \<in> set t"
    for n ex
  proof -
    from f4 d have "distinct (map fst (checks t))"
      by (auto simp: prefix_def)
    from this mem_checks[OF m] have "n \<notin> set (passed (checks t))"
      by (rule refused_not_started)
    with f3 have "RunCommand n \<notin> set t" using mem_started[of n t] by simp
    with called have ne: "n \<notin> set (executedCommands (final R))" by blast
    with f1 have nc: "n \<notin> set (completed t)" by simp
    have snapshots: "n \<notin> set ex'" if "DependencyCheck m ex' b \<in> set t" for m ex' b
    proof -
      from that obtain a z where "t = a @ DependencyCheck m ex' b # z"
        by (auto dest: split_list)
      with f5 have "ex' = completed a" "set (completed a) \<subseteq> set (completed t)"
        unfolding snap_def by auto
      with nc show ?thesis by auto
    qed
    show ?thesis
    proof (intro conjI allI impI)
      show "n \<notin> set (executedCommands (final R))" by (rule ne)
    next
      fix m ex' b c
      assume "DependencyCheck m ex' b \<in> set t \<and> requires c n"
      then show "n \<notin> set ex'" by (intro snapshots[of m ex' b]) simp
    next
      fix m ex' b c
      assume h: "DependencyCheck m ex' b \<in> set t \<and> requires c n"
      then have "n \<notin> set ex'" by (intro snapshots[of m ex' b]) simp
      with h show "\<not> areDependenciesSatisfied c ex'" by (intro requires_unsatisfied) simp_all
    qed
  qed
  have empty: "ex = []" if "stage_parallel stage" "DependencyCheck n ex b \<in> set t" for n ex b
  proof -
    obtain ls st1 where launch: "launch_commands exec commands initial_state = (ls, st1)"
      by (cases "launch_commands exec commands initial_state")
    from runStage_parallel(1)[OF ne that(1) R launch] t that(2)
    have "DependencyCheck n ex b \<in> set (trace st1)" by auto
    with launch_commands_trace[OF launch] show ?thesis by auto
  qed
  show ?thesis
  proof (intro conjI)
    show "executedCommands (final R) = completed t" by (rule f1)
    show "\<forall>a n z. t = a @ Completed n # z \<longrightarrow> RunCommand n \<in> set a" using f2 by blast
    show "started t = passed (checks t)" by (rule f3)
    show "stage_parallel stage \<longrightarrow>
       checks t = map (\<lambda>c. (name c, areDependenciesSatisfied c [])) commands \<and>
       (\<forall>n ex b. DependencyCheck n ex b \<in> set t \<longrightarrow> ex = [])"
      using f7 empty by blast
    show "distinct (map name commands) \<longrightarrow>
       (\<forall>a c z. c \<in> set commands \<and> t = a @ RunCommand (name c) # z \<longrightarrow>
          ((\<exists>r. exec (a @ [RunCommand (name c)]) c = Fulfilled r) \<longleftrightarrow>
           name c \<in> set (executedCommands (final R)))) \<and>
       (\<forall>n ex. DependencyCheck n ex False \<in> set t \<longrightarrow>
          n \<notin> set (executedCommands (final R)) \<and>
          (\<forall>m ex' b c. DependencyCheck m ex' b \<in> set t \<and> requires c n \<longrightarrow>
             n \<notin> set ex' \<and> \<not> areDependenciesSatisfied c ex'))"
    proof (rule impI)
      assume d: "distinct (map name commands)"
      have "\<forall>a c z. c \<in> set commands \<and> t = a @ RunCommand (name c) # z \<longrightarrow>
          ((\<exists>r. exec (a @ [RunCommand (name c)]) c = Fulfilled r) \<longleftrightarrow>
           name c \<in> set (executedCommands (final R)))"
        using exact[OF d] by blast
      moreover have "\<forall>n ex. DependencyCheck n ex False \<in> set t \<longrightarrow>
          n \<notin> set (executedCommands (final R)) \<and>
          (\<forall>m ex' b c. DependencyCheck m ex' b \<in> set t \<and> requires c n \<longrightarrow>
             n \<notin> set ex' \<and> \<not> areDependenciesSatisfied c ex')"
        using skip[OF d] by blast
      ultimately show "(\<forall>a c z. c \<in> set commands \<and> t = a @ RunCommand (name c) # z \<longrightarrow>
          ((\<exists>r. exec (a @ [RunCommand (name c)]) c = Fulfilled r) \<longleftrightarrow>
           name c \<in> set (executedCommands (final R)))) \<and>
       (\<forall>n ex. DependencyCheck n ex False \<in> set t \<longrightarrow>
          n \<notin> set (executedCommands (final R)) \<and>
          (\<forall>m ex' b c. DependencyCheck m ex' b \<in> set t \<and> requires c n \<longrightarrow>
             n \<notin> set ex' \<and> \<not> areDependenciesSatisfied c ex'))"
        by (rule conjI)
    qed
  qed
qed
lemma skip_trace:
  "trace (final (runStage True demo_runner [] (Some demo_stage) skip_commands ''s'')) =
   [DependencyCheck ''x'' [] False, DependencyCheck ''y'' [] False,
    DependencyCheck ''z'' [] True, RunCommand ''z'', Completed ''z'', Pause 500]"
  by (simp add: runStage_def demo_stage_def skip_commands_def demo_runner_def plain_command_def
      areDependenciesSatisfied_def Let_def)

lemma parallel_trace:
  "trace (final (runStage True demo_runner [1, 0, 2] (Some parallel_stage) parallel_commands ''p'')) =
   [DependencyCheck ''a'' [] True, RunCommand ''a'', DependencyCheck ''b'' [] True,
    RunCommand ''b'', DependencyCheck ''c'' [] False, Completed ''b'', Completed ''a'']"
  by (simp add: runStage_def parallel_stage_def parallel_commands_def demo_runner_def
      plain_command_def areDependenciesSatisfied_def Let_def settle_commands_def stage_result_def)

lemma parallel_order: "completion_order [1, 0, 2] parallel_commands"
  by (simp add: completion_order_def parallel_commands_def upt_rec)

theorem executed_exactly_returned_witness:
  "parallel_commands \<noteq> [] \<and> completion_order [1, 0, 2] parallel_commands \<and>
   distinct (map name parallel_commands) \<and> stage_parallel parallel_stage \<and>
   trace (final (runStage True demo_runner [1, 0, 2] (Some parallel_stage) parallel_commands ''p'')) =
     [DependencyCheck ''a'' [] True, RunCommand ''a'', DependencyCheck ''b'' [] True,
      RunCommand ''b'', DependencyCheck ''c'' [] False, Completed ''b'', Completed ''a''] \<and>
   executedCommands
     (final (runStage True demo_runner [1, 0, 2] (Some parallel_stage) parallel_commands ''p'')) =
     [''b'', ''a''] \<and>
   \<not> success (case demo_runner [DependencyCheck ''a'' [] True, RunCommand ''a'',
         DependencyCheck ''b'' [] True, RunCommand ''b''] (parallel_commands ! 1) of
       Fulfilled r \<Rightarrow> r) \<and>
   skip_commands \<noteq> [] \<and> completion_order [0, 1, 2] skip_commands \<and>
   distinct (map name skip_commands) \<and> \<not> stage_parallel demo_stage \<and>
   DependencyCheck ''x'' [] False \<in>
     set (trace (final (runStage True demo_runner [0, 1, 2] (Some demo_stage) skip_commands ''s''))) \<and>
   requires (skip_commands ! 1) ''x'' \<and>
   ''x'' \<notin> set (executedCommands
     (final (runStage True demo_runner [0, 1, 2] (Some demo_stage) skip_commands ''s'')))"
proof -
  have p1: "parallel_commands \<noteq> []" by (simp add: parallel_commands_def)
  have p2: "distinct (map name parallel_commands)"
    by (simp add: parallel_commands_def plain_command_def)
  have p3: "stage_parallel parallel_stage" by (simp add: parallel_stage_def)
  have p4: "\<not> success (case demo_runner [DependencyCheck ''a'' [] True, RunCommand ''a'',
         DependencyCheck ''b'' [] True, RunCommand ''b''] (parallel_commands ! 1) of
       Fulfilled r \<Rightarrow> r)"
    by (simp add: demo_runner_def parallel_commands_def plain_command_def)
  note par = executed_exactly_returned[OF p1 parallel_order refl refl,
      of True demo_runner parallel_stage "''p''"]
  from par[THEN conjunct1, unfolded parallel_trace] have p5: "executedCommands
     (final (runStage True demo_runner [1, 0, 2] (Some parallel_stage) parallel_commands ''p'')) =
     [''b'', ''a'']"
    by simp
  have h1: "skip_commands \<noteq> []" by (simp add: skip_commands_def)
  have h2: "distinct (map name skip_commands)" by (simp add: skip_commands_def plain_command_def)
  have h3: "completion_order [0, 1, 2] skip_commands"
    by (simp add: completion_order_def skip_commands_def upt_rec)
  have h4: "\<not> stage_parallel demo_stage" by (simp add: demo_stage_def)
  have tr: "trace (final (runStage True demo_runner [0, 1, 2] (Some demo_stage) skip_commands ''s'')) =
     trace (final (runStage True demo_runner [] (Some demo_stage) skip_commands ''s''))"
    by (simp add: runStage_def demo_stage_def)
  have h5: "DependencyCheck ''x'' [] False \<in>
     set (trace (final (runStage True demo_runner [0, 1, 2] (Some demo_stage) skip_commands ''s'')))"
    unfolding tr by (simp add: skip_trace)
  have h6: "requires (skip_commands ! 1) ''x''"
    by (simp add: skip_commands_def plain_command_def requires_def)
  note sq = executed_exactly_returned[OF h1 h3 refl refl, of True demo_runner demo_stage "''s''"]
  note sk = sq[THEN conjunct2, THEN conjunct2, THEN conjunct2, THEN conjunct2, THEN mp, OF h2,
      THEN conjunct2, rule_format, OF h5, THEN conjunct1]
  from p1 parallel_order p2 p3 parallel_trace p5 p4 h1 h3 h2 h4 h5 h6 sk show ?thesis
    by (intro conjI)
qed



section \<open>Properties of substitution and extraction\<close>

lemma includes_somewhere: "includes_str s sub = somewhere (prefix sub) s"
  by (induction s) auto

lemma somewhere_mono: "somewhere P s \<Longrightarrow> (\<And>t. P t \<Longrightarrow> Q t) \<Longrightarrow> somewhere Q s"
  by (induction s) auto

text \<open>
  A text in which neither \<^verbatim>\<open>${NAME}\<close> nor \<^verbatim>\<open>$NAME\<close> occurs at all has no occurrence of the
  braced form and none of the bare form before a word boundary.
\<close>

lemma no_substring_no_occurrence:
  assumes "\<not> includes_str r (''${'' @ k @ ''}'')" "\<not> includes_str r (CHR ''$'' # k)"
  shows "\<not> somewhere (braced_at k) r \<and> \<not> somewhere (bare_at k) r"
proof
  have "somewhere (prefix (''${'' @ k @ ''}'')) r" if "somewhere (braced_at k) r"
    by (rule somewhere_mono[OF that]) (simp add: braced_at_def)
  with assms(1) show "\<not> somewhere (braced_at k) r"
    unfolding includes_somewhere by blast
  have "somewhere (prefix (CHR ''$'' # k)) r" if "somewhere (bare_at k) r"
    by (rule somewhere_mono[OF that]) (simp add: bare_at_def)
  with assms(2) show "\<not> somewhere (bare_at k) r"
    unfolding includes_somewhere by blast
qed

lemma literal_atoms: "literal_name k \<Longrightarrow> name_atoms k = Some (map Lit k)"
  unfolding literal_name_def name_atoms_def
  by (induction k) (auto simp: name_atom_def is_syntax_char_def)

lemma match_exact:
  "match_atoms False (map Lit lit @ p) prev s =
     (if prefix lit s then
        map_option (\<lambda>n. length lit + n)
          (match_atoms False p (if lit = [] then prev else Some (last lit)) (drop (length lit) s))
      else None)"
proof (induction lit arbitrary: prev s)
  case Nil
  show ?case by (cases "match_atoms False p prev s") simp_all
next
  case (Cons a l)
  show ?case
  proof (cases s)
    case Nil
    then show ?thesis by simp
  next
    case (Cons c cs)
    then show ?thesis
      using Cons.IH[of "Some c" cs]
      by (auto simp: option.map_comp comp_def)
  qed
qed

lemma match_folded:
  "match_atoms True (map Lit lit) prev s =
     (if length lit \<le> length s \<and> map canonicalize (take (length lit) s) = map canonicalize lit
      then Some (length lit) else None)"
proof (induction lit arbitrary: prev s)
  case Nil
  then show ?case by simp
next
  case (Cons a l)
  show ?case
  proof (cases s)
    case Nil
    then show ?thesis by simp
  next
    case (Cons c cs)
    then show ?thesis
      using Cons.IH[of "Some c" cs] by auto
  qed
qed

lemma braced_literal: "braced_atoms (map Lit k) = map Lit (''${'' @ k @ ''}'')"
  by (simp add: braced_atoms_def)

lemma bare_literal: "bare_atoms (map Lit k) = map Lit (CHR ''$'' # k) @ [WordBoundary]"
  by (simp add: bare_atoms_def)

lemma marker_literal: "marker_atoms (map Lit n) = map Lit (marker n)"
  by (simp add: marker_atoms_def marker_def)

lemma match_braced:
  "match_atoms False (braced_atoms (map Lit k)) prev s =
     (if braced_at k s then Some (length k + 3) else None)"
  using match_exact[of "''${'' @ k @ ''}''" "[]" prev s]
  by (simp add: braced_literal braced_at_def)

lemma match_bare:
  "match_atoms False (bare_atoms (map Lit k)) prev s =
     (if bare_at k s then Some (length k + 1) else None)"
  using match_exact[of "CHR ''$'' # k" "[WordBoundary]" prev s]
  by (simp add: bare_literal bare_at_def)

lemma match_marker:
  "match_atoms True (marker_atoms (map Lit n)) prev s =
     (if marker_at n s then Some (length (marker n)) else None)"
  by (simp add: marker_literal match_folded marker_at_def)

text \<open>
  Replacing the matches of pieces that match, whatever comes before, exactly where \<open>occ\<close>
  holds, with a match of the length \<open>n\<close>.
\<close>

lemma replaceAll_none:
  assumes m: "\<And>prev s. match_atoms False p prev s = (if occ s then Some n else None)"
  shows "\<not> somewhere occ s \<Longrightarrow> replaceAll p v scanned s = s"
  by (induction s arbitrary: scanned) (simp_all add: m)

lemma replaceAll_first:
  assumes m: "\<And>prev s. match_atoms False p prev s = (if occ s then Some n else None)"
    and n: "0 < n" "length found = n"
    and here: "occ (found @ post)"
  shows "(\<forall>i<length pre. \<not> occ (drop i (pre @ found @ post))) \<Longrightarrow>
     replaceAll p v scanned (pre @ found @ post) =
       pre @ getSubstitution found (scanned @ pre) post v
         @ replaceAll p v (scanned @ pre @ found) post"
proof (induction pre arbitrary: scanned)
  case Nil
  from n have "found \<noteq> []" by auto
  then obtain c cs where f: "found = c # cs" by (cases found) auto
  with n have n': "n = Suc (length cs)" by simp
  from here show ?case unfolding f n' by (simp add: m n')
next
  case (Cons c pre)
  from Cons.prems have "\<not> occ (drop 0 ((c # pre) @ found @ post))" by blast
  then have no: "\<not> occ (c # pre @ found @ post)" by simp
  have "\<forall>i<length pre. \<not> occ (drop i (pre @ found @ post))"
  proof (intro allI impI)
    fix i assume "i < length pre"
    then have "Suc i < length (c # pre)" by simp
    with Cons.prems have "\<not> occ (drop (Suc i) ((c # pre) @ found @ post))" by blast
    then show "\<not> occ (drop i (pre @ found @ post))" by simp
  qed
  from Cons.IH[OF this, of "scanned @ [c]"] no show ?case by (simp add: m)
qed

lemma getSubstitution_plain: "CHR ''$'' \<notin> set v \<Longrightarrow> getSubstitution m b a v = v"
  by (induction m b a v rule: getSubstitution.induct) auto

lemma replace_each_literal:
  assumes "list_all (\<lambda>(key, val). literal_name key) variables"
    and "\<And>key val t. literal_name key \<Longrightarrow> replace key val t = Inr (f key val t)"
  shows "replace_each replace variables (Inr t) =
         Inr (foldl (\<lambda>s (key, val). f key val s) t variables)"
  using assms(1) unfolding replace_each_def
  by (induction variables arbitrary: t) (auto simp: assms(2))

lemma replace_braced_literal:
  "literal_name key \<Longrightarrow>
   replace_braced env key val t = Inr (replaceAll (braced_atoms (map Lit key)) val [] t)"
  by (simp add: replace_braced_def literal_atoms)

lemma replace_bare_literal:
  "literal_name key \<Longrightarrow>
   replace_bare env key val t = Inr (replaceAll (bare_atoms (map Lit key)) val [] t)"
  by (simp add: replace_bare_def literal_atoms)

lemma processVariables_literal:
  assumes "list_all (\<lambda>(key, val). literal_name key) variables"
  shows "processVariables env variables t =
       Inr (foldl (\<lambda>s (key, val). replaceAll (bare_atoms (map Lit key)) val [] s)
         (foldl (\<lambda>s (key, val). replaceAll (braced_atoms (map Lit key)) val [] s) t variables)
         variables)"
  unfolding processVariables_def
  by (simp add: replace_each_literal[OF assms, of "replace_braced env", OF replace_braced_literal]
      replace_each_literal[OF assms, of "replace_bare env", OF replace_bare_literal])

lemma bare_never_at_brace:
  assumes "literal_name k"
  shows "\<not> bare_at k (''${'' @ rest)"
proof (cases k)
  case Nil
  then show ?thesis by (simp add: bare_at_def word_boundary_def is_word_char_def)
next
  case (Cons c k')
  with assms have "\<not> is_syntax_char c" by (simp add: literal_name_def)
  then have "c \<noteq> CHR ''{''" by (auto simp: is_syntax_char_def)
  with Cons show ?thesis by (simp add: bare_at_def)
qed
lemma no_occurrence_pass:
  assumes "list_all (\<lambda>(key, val). \<not> somewhere (occ key) s) variables"
    and "\<And>key val. \<not> somewhere (occ key) s \<Longrightarrow> f key val s = s"
  shows "foldl (\<lambda>t (key, val). f key val t) s variables = s"
  using assms(1) by (induction variables) (auto simp: assms(2))

text \<open>
  C5, as amended. For a store whose names have no syntax character of regular
  expressions: when the substituted text has no occurrence left of \<^verbatim>\<open>${NAME}\<close>, or of
  \<^verbatim>\<open>$NAME\<close> before a word boundary, for any variable of the store, substituting it again
  changes nothing. By \<open>no_substring_no_occurrence\<close> this holds of every substituted text in
  which neither \<^verbatim>\<open>${NAME}\<close> nor \<^verbatim>\<open>$NAME\<close> occurs at all.
\<close>

theorem substitute_idempotent:
  assumes names: "list_all (\<lambda>(key, val). literal_name key) variables"
    and once: "processVariables env variables t = Inr r"
    and none: "list_all (\<lambda>(key, val). \<not> somewhere (braced_at key) r \<and>
                                     \<not> somewhere (bare_at key) r) variables"
  shows "processVariables env variables r = Inr r"
proof -
  from none have
    b: "list_all (\<lambda>(key, val). \<not> somewhere (braced_at key) r) variables" and
    p: "list_all (\<lambda>(key, val). \<not> somewhere (bare_at key) r) variables"
    by (auto simp: list_all_iff)
  have "foldl (\<lambda>s (key, val). replaceAll (braced_atoms (map Lit key)) val [] s) r variables = r"
    by (rule no_occurrence_pass[OF b]) (rule replaceAll_none[OF match_braced])
  moreover
  have "foldl (\<lambda>s (key, val). replaceAll (bare_atoms (map Lit key)) val [] s) r variables = r"
    by (rule no_occurrence_pass[OF p]) (rule replaceAll_none[OF match_bare])
  ultimately show ?thesis by (simp add: processVariables_literal[OF names])
qed

lemma demo_substitution:
  "processVariables demo_platform [(''A'', ''1'')] ''x ${A} $A $AB'' = Inr ''x 1 1 $AB''"
  by (simp add: processVariables_def replace_each_def replace_braced_def replace_bare_def
      name_atoms_def name_atom_def is_syntax_char_def braced_atoms_def bare_atoms_def
      previous_def word_boundary_def is_word_char_def)

theorem substitute_idempotent_witness:
  "list_all (\<lambda>(key, val). literal_name key) [(''A'', ''1'')] \<and>
   processVariables demo_platform [(''A'', ''1'')] ''x ${A} $A $AB'' = Inr ''x 1 1 $AB'' \<and>
   list_all (\<lambda>(key, val). \<not> somewhere (braced_at key) ''x 1 1 $AB'' \<and>
                            \<not> somewhere (bare_at key) ''x 1 1 $AB'') [(''A'', ''1'')] \<and>
   processVariables demo_platform [(''A'', ''1'')] ''x 1 1 $AB'' = Inr ''x 1 1 $AB''"
proof -
  have h1: "list_all (\<lambda>(key, val). literal_name key) [(''A'', ''1'')]"
    by (simp add: literal_name_def is_syntax_char_def)
  have h2: "list_all (\<lambda>(key, val). \<not> somewhere (braced_at key) ''x 1 1 $AB'' \<and>
                            \<not> somewhere (bare_at key) ''x 1 1 $AB'') [(''A'', ''1'')]"
    by (simp add: braced_at_def bare_at_def word_boundary_def is_word_char_def)
  from substitute_idempotent[OF h1 demo_substitution h2] h1 h2 demo_substitution
  show ?thesis by blast
qed

text \<open>
  C5 as stated fails for a name with a syntax character of regular expressions. With the
  variable \<^verbatim>\<open>A.B\<close> of value \<^verbatim>\<open>${AxB}!\<close>, the text \<^verbatim>\<open>${A.B}\<close> becomes \<^verbatim>\<open>${AxB}!\<close>, in which
  neither \<^verbatim>\<open>${A.B}\<close> nor \<^verbatim>\<open>$A.B\<close> occurs; substituting again gives \<^verbatim>\<open>${AxB}!!\<close>, because the
  full stop of the name matches any character.
\<close>

theorem dotted_name_counterexample:
  "processVariables demo_platform [(''A.B'', ''${AxB}!'')] ''${A.B}'' = Inr ''${AxB}!'' \<and>
   \<not> includes_str ''${AxB}!'' ''${A.B}'' \<and> \<not> includes_str ''${AxB}!'' ''$A.B'' \<and>
   processVariables demo_platform [(''A.B'', ''${AxB}!'')] ''${AxB}!'' = Inr ''${AxB}!!''"
  by (simp add: processVariables_def replace_each_def replace_braced_def replace_bare_def
      name_atoms_def name_atom_def is_syntax_char_def braced_atoms_def bare_atoms_def
      previous_def word_boundary_def is_word_char_def is_line_terminator_def)

text \<open>
  C4, as amended. For a store whose names have no syntax character of regular
  expressions, \<^verbatim>\<open>processVariables\<close> is the pass over all variables for \<^verbatim>\<open>$NAME\<close> applied to
  the result of the pass over all variables for \<^verbatim>\<open>${NAME}\<close>. In a pass for such a name, a
  text without occurrence is left as it is, and a text with a first occurrence keeps
  what comes before it, has the substitution of the value in its place, and is scanned
  on after it, with every later occurrence treated the same way. The occurrences of
  the bare form are those with a word boundary after them. A dollar sign followed by
  an opening brace is never the start of an occurrence of the bare form, so a span
  \<^verbatim>\<open>${NAME}\<close> is replaced by the braced form only. A value without dollar sign is
  substituted as it is.
\<close>

theorem processVariables_passes:
  assumes names: "list_all (\<lambda>(key, val). literal_name key) variables" and k: "literal_name k"
  shows "processVariables env variables t =
       Inr (foldl (\<lambda>s (key, val). replaceAll (bare_atoms (map Lit key)) val [] s)
         (foldl (\<lambda>s (key, val). replaceAll (braced_atoms (map Lit key)) val [] s) t variables)
         variables) \<and>
     (\<not> somewhere (braced_at k) s \<longrightarrow> replaceAll (braced_atoms (map Lit k)) v scanned s = s) \<and>
     ((\<forall>i<length pre. \<not> braced_at k (drop i (pre @ (''${'' @ k @ ''}'') @ post))) \<longrightarrow>
        replaceAll (braced_atoms (map Lit k)) v scanned (pre @ (''${'' @ k @ ''}'') @ post) =
          pre @ getSubstitution (''${'' @ k @ ''}'') (scanned @ pre) post v
            @ replaceAll (braced_atoms (map Lit k)) v (scanned @ pre @ (''${'' @ k @ ''}'')) post) \<and>
     (\<not> somewhere (bare_at k) s \<longrightarrow> replaceAll (bare_atoms (map Lit k)) v scanned s = s) \<and>
     (bare_at k ((CHR ''$'' # k) @ post) \<and>
      (\<forall>i<length pre. \<not> bare_at k (drop i (pre @ (CHR ''$'' # k) @ post))) \<longrightarrow>
        replaceAll (bare_atoms (map Lit k)) v scanned (pre @ (CHR ''$'' # k) @ post) =
          pre @ getSubstitution (CHR ''$'' # k) (scanned @ pre) post v
            @ replaceAll (bare_atoms (map Lit k)) v (scanned @ pre @ (CHR ''$'' # k)) post) \<and>
     \<not> bare_at k (''${'' @ rest) \<and>
     (CHR ''$'' \<notin> set v \<longrightarrow> getSubstitution m b a v = v)"
proof (intro conjI impI)
  show "processVariables env variables t =
       Inr (foldl (\<lambda>s (key, val). replaceAll (bare_atoms (map Lit key)) val [] s)
         (foldl (\<lambda>s (key, val). replaceAll (braced_atoms (map Lit key)) val [] s) t variables)
         variables)"
    by (rule processVariables_literal[OF names])
next
  assume "\<not> somewhere (braced_at k) s"
  then show "replaceAll (braced_atoms (map Lit k)) v scanned s = s"
    by (rule replaceAll_none[OF match_braced])
next
  assume first: "\<forall>i<length pre. \<not> braced_at k (drop i (pre @ (''${'' @ k @ ''}'') @ post))"
  have here: "braced_at k ((''${'' @ k @ ''}'') @ post)" by (simp add: braced_at_def)
  show "replaceAll (braced_atoms (map Lit k)) v scanned (pre @ (''${'' @ k @ ''}'') @ post) =
          pre @ getSubstitution (''${'' @ k @ ''}'') (scanned @ pre) post v
            @ replaceAll (braced_atoms (map Lit k)) v (scanned @ pre @ (''${'' @ k @ ''}'')) post"
    by (rule replaceAll_first[OF match_braced _ _ here first]) simp_all
next
  assume "\<not> somewhere (bare_at k) s"
  then show "replaceAll (bare_atoms (map Lit k)) v scanned s = s"
    by (rule replaceAll_none[OF match_bare])
next
  assume h: "bare_at k ((CHR ''$'' # k) @ post) \<and>
      (\<forall>i<length pre. \<not> bare_at k (drop i (pre @ (CHR ''$'' # k) @ post)))"
  then have here: "bare_at k ((CHR ''$'' # k) @ post)"
    and first: "\<forall>i<length pre. \<not> bare_at k (drop i (pre @ (CHR ''$'' # k) @ post))"
    by simp_all
  show "replaceAll (bare_atoms (map Lit k)) v scanned (pre @ (CHR ''$'' # k) @ post) =
          pre @ getSubstitution (CHR ''$'' # k) (scanned @ pre) post v
            @ replaceAll (bare_atoms (map Lit k)) v (scanned @ pre @ (CHR ''$'' # k)) post"
    by (rule replaceAll_first[OF match_bare _ _ here first]) simp_all
next
  show "\<not> bare_at k (''${'' @ rest)" by (rule bare_never_at_brace[OF k])
next
  assume "CHR ''$'' \<notin> set v"
  then show "getSubstitution m b a v = v" by (rule getSubstitution_plain)
qed

lemma stray_dollar_substitution:
  "processVariables demo_platform [(''A'', ''1'')] ''$H ${A} $A $AB'' = Inr ''$H 1 1 $AB''"
  by (simp add: processVariables_def replace_each_def replace_braced_def replace_bare_def
      name_atoms_def name_atom_def is_syntax_char_def braced_atoms_def bare_atoms_def
      previous_def word_boundary_def is_word_char_def)

theorem processVariables_passes_witness:
  "list_all (\<lambda>(key, val). literal_name key) [(''A'', ''1'')] \<and> literal_name ''A'' \<and>
   processVariables demo_platform [(''A'', ''1'')] ''$H ${A} $A $AB'' = Inr ''$H 1 1 $AB'' \<and>
   \<not> somewhere (braced_at ''A'') '' $A $AB'' \<and>
   replaceAll (braced_atoms (map Lit ''A'')) ''1'' [] ''$H ${A} $A $AB'' = ''$H 1 $A $AB'' \<and>
   bare_at ''A'' ((CHR ''$'' # ''A'') @ '' $AB'') \<and>
   \<not> somewhere (bare_at ''A'') '' $AB'' \<and>
   replaceAll (bare_atoms (map Lit ''A'')) ''1'' [] ''$H 1 $A $AB'' = ''$H 1 1 $AB''"
proof -
  have h1: "list_all (\<lambda>(key, val). literal_name key) [(''A'', ''1'')]"
    and h2: "literal_name ''A''"
    by (simp_all add: literal_name_def is_syntax_char_def)
  have f1: "\<forall>i<length ''$H ''. \<not> braced_at ''A'' (drop i (''$H '' @ (''${'' @ ''A'' @ ''}'') @ '' $A $AB''))"
    by (simp add: braced_at_def less_Suc_eq)
  have n1: "\<not> somewhere (braced_at ''A'') '' $A $AB''" by (simp add: braced_at_def)
  have o2: "bare_at ''A'' ((CHR ''$'' # ''A'') @ '' $AB'')"
    by (simp add: bare_at_def word_boundary_def is_word_char_def)
  have f2: "\<forall>i<length ''$H 1 ''. \<not> bare_at ''A'' (drop i (''$H 1 '' @ (CHR ''$'' # ''A'') @ '' $AB''))"
    by (simp add: bare_at_def less_Suc_eq)
  have n2: "\<not> somewhere (bare_at ''A'') '' $AB''"
    by (simp add: bare_at_def word_boundary_def is_word_char_def)
  have v: "getSubstitution m b a ''1'' = ''1''" for m b a by simp
  note whole = processVariables_passes[OF h1 h2]
  note braced_rest = whole[where s = "'' $A $AB''" and scanned = "''$H ${A}''" and v = "''1''",
      THEN conjunct2, THEN conjunct1, THEN mp, OF n1]
  note braced_first = whole[where scanned = "[]" and pre = "''$H ''" and post = "'' $A $AB''"
      and v = "''1''", THEN conjunct2, THEN conjunct2, THEN conjunct1, THEN mp, OF f1]
  have r1: "replaceAll (braced_atoms (map Lit ''A'')) ''1'' [] ''$H ${A} $A $AB'' = ''$H 1 $A $AB''"
    using braced_first braced_rest by (simp add: v)
  note bare_rest = whole[where s = "'' $AB''" and scanned = "''$H 1 $A''" and v = "''1''",
      THEN conjunct2, THEN conjunct2, THEN conjunct2, THEN conjunct1, THEN mp, OF n2]
  note bare_first = whole[where scanned = "[]" and pre = "''$H 1 ''" and post = "'' $AB''"
      and v = "''1''", THEN conjunct2, THEN conjunct2, THEN conjunct2, THEN conjunct2,
      THEN conjunct1, THEN mp, OF conjI, OF o2 f2]
  have r2: "replaceAll (bare_atoms (map Lit ''A'')) ''1'' [] ''$H 1 $A $AB'' = ''$H 1 1 $AB''"
    using bare_first bare_rest by (simp add: v)
  from h1 h2 stray_dollar_substitution n1 r1 o2 n2 r2 show ?thesis
    by (intro conjI)
qed

text \<open>
  C4 as stated fails for a name with a syntax character of regular expressions. With the
  variable \<^verbatim>\<open>A$\<close>, the occurrence \<^verbatim>\<open>${A$}\<close> is not replaced, because the dollar sign of the
  name stands for the end of the text. With the variables \<^verbatim>\<open>A.B\<close> and \<^verbatim>\<open>AxB\<close>, the
  occurrence \<^verbatim>\<open>${AxB}\<close> is replaced by the value of \<^verbatim>\<open>A.B\<close>.
\<close>

theorem unescaped_name_counterexample:
  "processVariables demo_platform [(''A$'', ''1'')] ''echo ${A$}'' = Inr ''echo ${A$}'' \<and>
   processVariables demo_platform [(''A.B'', ''1''), (''AxB'', ''2'')] ''echo ${AxB}'' =
     Inr ''echo 1''"
  by (simp add: processVariables_def replace_each_def replace_braced_def replace_bare_def
      name_atoms_def name_atom_def is_syntax_char_def braced_atoms_def bare_atoms_def
      previous_def word_boundary_def is_word_char_def is_line_terminator_def)
lemma marker_nonempty: "marker n \<noteq> []" "0 < length (marker n)"
  by (simp_all add: marker_def)

lemma first_match_sound:
  "first_match (marker_atoms (map Lit n)) scanned s = Some g \<Longrightarrow>
   \<exists>pre mk post. s = pre @ mk @ g @ post \<and> length mk = length (marker n) \<and>
      map canonicalize mk = map canonicalize (marker n) \<and>
      (\<forall>i<length pre. \<not> marker_at n (drop i s)) \<and>
      list_all (\<lambda>x. \<not> is_line_terminator x) g \<and>
      (post = [] \<or> is_line_terminator (hd post))"
proof (induction s arbitrary: scanned)
  case Nil
  then show ?case using marker_nonempty(2)[of n] by (simp add: match_marker marker_at_def)
next
  case (Cons c cs)
  show ?case
  proof (cases "marker_at n (c # cs)")
    case True
    let ?rest = "drop (length (marker n)) (c # cs)"
    from True Cons.prems have g: "g = takeWhile (\<lambda>x. \<not> is_line_terminator x) ?rest"
      by (simp add: match_marker)
    have "c # cs = [] @ take (length (marker n)) (c # cs) @ g
            @ dropWhile (\<lambda>x. \<not> is_line_terminator x) ?rest"
      unfolding g by simp
    moreover from True have "length (take (length (marker n)) (c # cs)) = length (marker n)"
      "map canonicalize (take (length (marker n)) (c # cs)) = map canonicalize (marker n)"
      by (simp_all add: marker_at_def)
    moreover have "list_all (\<lambda>x. \<not> is_line_terminator x) g"
      unfolding g list_all_iff by (auto dest: set_takeWhileD)
    moreover have "dropWhile (\<lambda>x. \<not> is_line_terminator x) ?rest = [] \<or>
        is_line_terminator (hd (dropWhile (\<lambda>x. \<not> is_line_terminator x) ?rest))"
      using hd_dropWhile[of "\<lambda>x. \<not> is_line_terminator x" ?rest] by auto
    moreover have "\<forall>i<length ([]::string). \<not> marker_at n (drop i (c # cs))" by simp
    ultimately show ?thesis by blast
  next
    case False
    with Cons.prems have "first_match (marker_atoms (map Lit n)) (scanned @ [c]) cs = Some g"
      by (simp add: match_marker)
    from Cons.IH[OF this] obtain pre mk post where p:
      "cs = pre @ mk @ g @ post" "length mk = length (marker n)"
      "map canonicalize mk = map canonicalize (marker n)"
      "\<forall>i<length pre. \<not> marker_at n (drop i cs)"
      "list_all (\<lambda>x. \<not> is_line_terminator x) g" "post = [] \<or> is_line_terminator (hd post)"
      by blast
    have "\<forall>i<length (c # pre). \<not> marker_at n (drop i (c # cs))"
    proof (intro allI impI)
      fix i assume i: "i < length (c # pre)"
      show "\<not> marker_at n (drop i (c # cs))"
      proof (cases i)
        case 0
        with False show ?thesis by simp
      next
        case (Suc j)
        with i p(4) show ?thesis by simp
      qed
    qed
    moreover from p(1) have "c # cs = (c # pre) @ mk @ g @ post" by simp
    ultimately show ?thesis using p(2,3,5,6) by blast
  qed
qed

lemma first_match_complete:
  assumes mk: "length mk = length (marker n)" "map canonicalize mk = map canonicalize (marker n)"
    and g: "list_all (\<lambda>x. \<not> is_line_terminator x) g" "post = [] \<or> is_line_terminator (hd post)"
  shows "(\<forall>i<length pre. \<not> marker_at n (drop i (pre @ mk @ g @ post))) \<Longrightarrow>
     first_match (marker_atoms (map Lit n)) scanned (pre @ mk @ g @ post) = Some g"
proof (induction pre arbitrary: scanned)
  case Nil
  from mk(1) marker_nonempty(2)[of n] obtain c cs where c: "mk = c # cs" by (cases mk) auto
  from mk have at: "marker_at n (mk @ g @ post)" by (simp add: marker_at_def)
  from g(2) have "takeWhile (\<lambda>x. \<not> is_line_terminator x) post = []"
    by (simp add: takeWhile_eq_Nil_iff)
  with g(1) have "takeWhile (\<lambda>x. \<not> is_line_terminator x) (g @ post) = g"
    by (simp add: list_all_iff)
  moreover from mk(1) have "drop (length (marker n)) (mk @ g @ post) = g @ post" by simp
  moreover have "first_match (marker_atoms (map Lit n)) scanned (mk @ g @ post) =
      Some (takeWhile (\<lambda>x. \<not> is_line_terminator x) (drop (length (marker n)) (mk @ g @ post)))"
    using at unfolding c by (simp add: match_marker)
  ultimately show ?case by simp
next
  case (Cons c pre)
  from Cons.prems have "\<not> marker_at n (drop 0 ((c # pre) @ mk @ g @ post))" by blast
  then have no: "\<not> marker_at n (c # pre @ mk @ g @ post)" by simp
  have "\<forall>i<length pre. \<not> marker_at n (drop i (pre @ mk @ g @ post))"
  proof (intro allI impI)
    fix i assume "i < length pre"
    then have "Suc i < length (c # pre)" by simp
    with Cons.prems have "\<not> marker_at n (drop (Suc i) ((c # pre) @ mk @ g @ post))" by blast
    then show "\<not> marker_at n (drop i (pre @ mk @ g @ post))" by simp
  qed
  from Cons.IH[OF this, of "scanned @ [c]"] no show ?case by (simp add: match_marker)
qed

lemma match_output_literal:
  "literal_name n \<Longrightarrow>
   match_output env n stdout = Inr (first_match (marker_atoms (map Lit n)) [] stdout)"
  by (simp add: match_output_def literal_atoms)

lemma calls_subseq: "subseq (map fst (fst (setVariable_calls env names stdout))) names"
  by (induction names) (auto simp: Let_def split: option.splits sum.splits)

lemma calls_literal:
  "list_all literal_name names \<Longrightarrow>
   snd (setVariable_calls env names stdout) = None \<and>
   ((n, w) \<in> set (fst (setVariable_calls env names stdout)) \<longleftrightarrow>
    n \<in> set names \<and>
    (\<exists>g. first_match (marker_atoms (map Lit n)) [] stdout = Some g \<and> g \<noteq> [] \<and> w = trim g))"
  by (induction names) (auto simp: Let_def match_output_literal split: option.splits)

lemma map_of_setVariable: "map_of (setVariable n v s) = (map_of s)(n \<mapsto> v)"
  by (induction s) (auto simp: fun_eq_iff)

lemma map_of_calls:
  "distinct (map fst calls) \<Longrightarrow>
   map_of (foldl (\<lambda>s (n, v). setVariable n v s) variables calls) m =
     (case map_of calls m of None \<Rightarrow> map_of variables m | Some w \<Rightarrow> Some w)"
proof (induction calls arbitrary: variables)
  case Nil
  then show ?case by simp
next
  case (Cons a calls)
  obtain n v where a: "a = (n, v)" by (cases a)
  from Cons.prems a have d: "distinct (map fst calls)" and n: "n \<notin> fst ` set calls" by simp_all
  from n have none: "map_of calls n = None" by (simp add: map_of_eq_None_iff)
  show ?case
    using Cons.IH[OF d, of "setVariable n v variables"] none
    by (auto simp: a map_of_setVariable split: option.splits)
qed

lemma subseq_distinct: "subseq xs ys \<Longrightarrow> distinct ys \<Longrightarrow> distinct xs"
proof (induction rule: list_emb.induct)
  case (list_emb_Cons xs ys y)
  then show ?case by simp
next
  case (list_emb_Cons2 x y xs ys)
  then have "x \<notin> set ys" "distinct xs" by simp_all
  moreover from list_emb_Cons2(2) have "set xs \<subseteq> set ys" by (rule subseq_set_mono)
  ultimately show ?case by auto
qed simp
text \<open>
  C3, as amended. Without \<^verbatim>\<open>outputs\<close> nothing changes. With \<^verbatim>\<open>outputs\<close> whose names are
  distinct and have no syntax character of regular expressions, \<^verbatim>\<open>extractOutputVariables\<close>
  does not throw and makes these calls of \<^verbatim>\<open>setVariable\<close>, in the order of the declared
  names and at most one for a name: a call for a declared name exactly when \<open>stdout\<close> has a
  marker for the name, compared without regard to case, and the text from the first such
  marker to the end of its line is not empty; the value is that text, trimmed. After the
  calls the store holds the value of each call for its name, and every name without a
  call, declared or not, has the value it had.
\<close>

theorem output_variables_extracted:
  "(outputs c = None \<longrightarrow> extractOutputVariables env c stdout variables = (variables, None)) \<and>
   (\<forall>names. outputs c = Some names \<and> distinct names \<and> list_all literal_name names \<longrightarrow>
      extractOutputVariables env c stdout variables =
        (foldl (\<lambda>s (n, v). setVariable n v s) variables
           (fst (setVariable_calls env names stdout)), None) \<and>
      subseq (map fst (fst (setVariable_calls env names stdout))) names \<and>
      distinct (map fst (fst (setVariable_calls env names stdout))) \<and>
      (\<forall>n w. (n, w) \<in> set (fst (setVariable_calls env names stdout)) \<longleftrightarrow>
         n \<in> set names \<and>
         (\<exists>pre mk g post. stdout = pre @ mk @ g @ post \<and> length mk = length (marker n) \<and>
            map canonicalize mk = map canonicalize (marker n) \<and>
            (\<forall>i<length pre. \<not> marker_at n (drop i stdout)) \<and>
            list_all (\<lambda>x. \<not> is_line_terminator x) g \<and>
            (post = [] \<or> is_line_terminator (hd post)) \<and>
            g \<noteq> [] \<and> w = trim g)) \<and>
      (\<forall>n w. (n, w) \<in> set (fst (setVariable_calls env names stdout)) \<longrightarrow>
         map_of (getAllVariables (fst (extractOutputVariables env c stdout variables))) n =
           Some w) \<and>
      (\<forall>n. n \<notin> fst ` set (fst (setVariable_calls env names stdout)) \<longrightarrow>
         map_of (getAllVariables (fst (extractOutputVariables env c stdout variables))) n =
           map_of variables n))"
proof (intro conjI impI allI)
  assume "outputs c = None"
  then show "extractOutputVariables env c stdout variables = (variables, None)"
    by (simp add: extractOutputVariables_def)
next
  fix names assume h: "outputs c = Some names \<and> distinct names \<and> list_all literal_name names"
  let ?calls = "fst (setVariable_calls env names stdout)"
  from h have lit: "list_all literal_name names" by simp
  note calls = calls_literal[OF lit, of env stdout]
  from h calls show eq: "extractOutputVariables env c stdout variables =
        (foldl (\<lambda>s (n, v). setVariable n v s) variables ?calls, None)"
    by (simp add: extractOutputVariables_def Let_def prod_eq_iff)
  show sub: "subseq (map fst ?calls) names" by (rule calls_subseq)
  from sub h show d: "distinct (map fst ?calls)" by (auto intro: subseq_distinct)
  {
    fix n w
    have "(\<exists>g. first_match (marker_atoms (map Lit n)) [] stdout = Some g \<and> g \<noteq> [] \<and> w = trim g)
        \<longleftrightarrow>
        (\<exists>pre mk g post. stdout = pre @ mk @ g @ post \<and> length mk = length (marker n) \<and>
            map canonicalize mk = map canonicalize (marker n) \<and>
            (\<forall>i<length pre. \<not> marker_at n (drop i stdout)) \<and>
            list_all (\<lambda>x. \<not> is_line_terminator x) g \<and>
            (post = [] \<or> is_line_terminator (hd post)) \<and>
            g \<noteq> [] \<and> w = trim g)"
    proof
      assume "\<exists>g. first_match (marker_atoms (map Lit n)) [] stdout = Some g \<and> g \<noteq> [] \<and> w = trim g"
      then obtain g where g: "first_match (marker_atoms (map Lit n)) [] stdout = Some g"
        "g \<noteq> []" "w = trim g" by blast
      from first_match_sound[OF g(1)] g(2,3) show "\<exists>pre mk g post. stdout = pre @ mk @ g @ post \<and>
            length mk = length (marker n) \<and>
            map canonicalize mk = map canonicalize (marker n) \<and>
            (\<forall>i<length pre. \<not> marker_at n (drop i stdout)) \<and>
            list_all (\<lambda>x. \<not> is_line_terminator x) g \<and>
            (post = [] \<or> is_line_terminator (hd post)) \<and>
            g \<noteq> [] \<and> w = trim g"
        by blast
    next
      assume "\<exists>pre mk g post. stdout = pre @ mk @ g @ post \<and> length mk = length (marker n) \<and>
            map canonicalize mk = map canonicalize (marker n) \<and>
            (\<forall>i<length pre. \<not> marker_at n (drop i stdout)) \<and>
            list_all (\<lambda>x. \<not> is_line_terminator x) g \<and>
            (post = [] \<or> is_line_terminator (hd post)) \<and>
            g \<noteq> [] \<and> w = trim g"
      then obtain pre mk g post where p: "stdout = pre @ mk @ g @ post"
        "length mk = length (marker n)" "map canonicalize mk = map canonicalize (marker n)"
        "\<forall>i<length pre. \<not> marker_at n (drop i stdout)"
        "list_all (\<lambda>x. \<not> is_line_terminator x) g" "post = [] \<or> is_line_terminator (hd post)"
        "g \<noteq> []" "w = trim g"
        by blast
      from p(4) have "\<forall>i<length pre. \<not> marker_at n (drop i (pre @ mk @ g @ post))"
        unfolding p(1) .
      from first_match_complete[OF p(2,3,5,6) this, of "[]"] p(1,7,8)
      show "\<exists>g. first_match (marker_atoms (map Lit n)) [] stdout = Some g \<and> g \<noteq> [] \<and> w = trim g"
        by simp
    qed
    with calls[of n w]
    show "(n, w) \<in> set ?calls \<longleftrightarrow>
         n \<in> set names \<and>
         (\<exists>pre mk g post. stdout = pre @ mk @ g @ post \<and> length mk = length (marker n) \<and>
            map canonicalize mk = map canonicalize (marker n) \<and>
            (\<forall>i<length pre. \<not> marker_at n (drop i stdout)) \<and>
            list_all (\<lambda>x. \<not> is_line_terminator x) g \<and>
            (post = [] \<or> is_line_terminator (hd post)) \<and>
            g \<noteq> [] \<and> w = trim g)"
      by simp
  }
  {
    fix n w
    assume "(n, w) \<in> set ?calls"
    with d have "map_of ?calls n = Some w" by simp
    then show "map_of (getAllVariables (fst (extractOutputVariables env c stdout variables))) n =
           Some w"
      unfolding eq by (simp add: getAllVariables_def map_of_calls[OF d])
  }
  {
    fix n assume "n \<notin> fst ` set ?calls"
    then have "map_of ?calls n = None" by (simp add: map_of_eq_None_iff)
    then show "map_of (getAllVariables (fst (extractOutputVariables env c stdout variables))) n =
           map_of variables n"
      unfolding eq by (simp add: getAllVariables_def map_of_calls[OF d])
  }
qed

lemma marker_output_calls:
  "fst (setVariable_calls demo_platform [''X''] marker_output) = [(''X'', ''42'')]"
  by (simp add: match_output_def name_atoms_def name_atom_def is_syntax_char_def
      marker_atoms_def marker_output_def previous_def canonicalize_def has_upper_case_def
      is_line_terminator_def trim_def is_white_space_def Let_def)

theorem output_variables_extracted_witness:
  "outputs output_command = Some [''X''] \<and> distinct [''X''] \<and> list_all literal_name [''X''] \<and>
   fst (setVariable_calls demo_platform [''X''] marker_output) = [(''X'', ''42'')] \<and>
   map_of (getAllVariables
     (fst (extractOutputVariables demo_platform output_command marker_output [(''V'', ''1'')]))) ''X''
     = Some ''42'' \<and>
   map_of (getAllVariables
     (fst (extractOutputVariables demo_platform output_command marker_output [(''V'', ''1'')]))) ''V''
     = Some ''1''"
proof -
  have h1: "outputs output_command = Some [''X'']" by (simp add: output_command_def plain_command_def)
  have h2: "distinct [''X'']" by simp
  have h3: "list_all literal_name [''X'']" by (simp add: literal_name_def is_syntax_char_def)
  note whole = output_variables_extracted[of output_command demo_platform marker_output
      "[(''V'', ''1'')]", THEN conjunct2, rule_format, OF conjI, OF h1 conjI, OF h2 h3]
  note set = whole[THEN conjunct2, THEN conjunct2, THEN conjunct2, THEN conjunct2,
      THEN conjunct1, rule_format]
  note kept = whole[THEN conjunct2, THEN conjunct2, THEN conjunct2, THEN conjunct2,
      THEN conjunct2, rule_format]
  have "map_of (getAllVariables
     (fst (extractOutputVariables demo_platform output_command marker_output [(''V'', ''1'')]))) ''X''
     = Some ''42''"
    by (rule set, unfold marker_output_calls) simp
  moreover have "map_of (getAllVariables
     (fst (extractOutputVariables demo_platform output_command marker_output [(''V'', ''1'')]))) ''V''
     = Some ''1''"
    using kept[of "''V''", unfolded marker_output_calls] by simp
  ultimately show ?thesis using h1 h2 h3 marker_output_calls by (intro conjI)
qed

text \<open>
  C3 as stated fails for a marker with an empty value: the marker is matched, the group
  is the empty text, and \<^verbatim>\<open>setVariable\<close> is not called, so the variable keeps its old
  value. It also fails for a name with a syntax character of regular expressions: for
  the declared name \<^verbatim>\<open>a.b\<close>, a marker of the name \<^verbatim>\<open>aXb\<close> sets the variable \<^verbatim>\<open>a.b\<close>, in an
  output without marker for \<^verbatim>\<open>a.b\<close>.
\<close>

theorem empty_output_value_counterexample:
  "outputs output_command = Some [''X''] \<and>
   marker_at ''X'' ''::set-output name=X::'' \<and>
   fst (setVariable_calls demo_platform [''X''] ''::set-output name=X::'') = [] \<and>
   extractOutputVariables demo_platform output_command ''::set-output name=X::'' [(''X'', ''old'')]
     = ([(''X'', ''old'')], None) \<and>
   fst (setVariable_calls demo_platform [''a.b''] ''::set-output name=aXb::v'') = [(''a.b'', ''v'')] \<and>
   \<not> somewhere (marker_at ''a.b'') ''::set-output name=aXb::v''"
  by (simp add: output_command_def plain_command_def match_output_def name_atoms_def
      name_atom_def is_syntax_char_def marker_atoms_def marker_def marker_at_def previous_def
      canonicalize_def has_upper_case_def is_line_terminator_def trim_def is_white_space_def
      extractOutputVariables_def Let_def)
section \<open>Properties of saving the output\<close>

lemma basename_no_slash: "CHR ''/'' \<notin> set (basename p)"
  by (auto simp: basename_def Let_def dest: set_takeWhileD)

lemma split_slash_nonempty [simp]: "split_slash p \<noteq> []"
  by (induction p) (simp_all add: Let_def)

lemma split_slash_append: "split_slash (a @ CHR ''/'' # b) = split_slash a @ split_slash b"
proof (induction a)
  case Nil
  then show ?case by simp
next
  case (Cons c a)
  then show ?case by (cases "split_slash a") (simp_all add: Let_def)
qed

lemma split_slash_single: "CHR ''/'' \<notin> set b \<Longrightarrow> split_slash b = [b]"
  by (induction b) (auto simp: Let_def)

lemma split_slash_no_slash: "s \<in> set (split_slash p) \<Longrightarrow> CHR ''/'' \<notin> set s"
proof (induction p arbitrary: s)
  case Nil
  then show ?case by simp
next
  case (Cons c p)
  obtain h t where ht: "split_slash p = h # t" by (cases "split_slash p") simp_all
  with Cons.IH have "CHR ''/'' \<notin> set h" "\<And>x. x \<in> set t \<Longrightarrow> CHR ''/'' \<notin> set x" by simp_all
  with Cons.prems ht Cons.IH show ?case by (auto simp: Let_def split: if_splits)
qed

lemma normalizeString_append:
  "normalizeString al (xs @ ys) res = normalizeString al ys (normalizeString al xs res)"
  by (induction al xs res rule: normalizeString.induct) auto

lemma normalizeString_proper:
  "list_all proper_segment ps \<Longrightarrow> normalizeString al ps res = res @ ps"
  by (induction ps arbitrary: res) (simp_all add: proper_segment_def)

lemma proper_butlast: "list_all proper_segment res \<Longrightarrow> list_all proper_segment (butlast res)"
  by (auto simp: list_all_iff dest: in_set_butlastD)

lemma normalizeString_keeps_proper:
  "list_all proper_segment res \<Longrightarrow> list_all (\<lambda>s. CHR ''/'' \<notin> set s) segs \<Longrightarrow>
   list_all proper_segment (normalizeString False segs res)"
proof (induction segs arbitrary: res)
  case Nil
  then show ?case by simp
next
  case (Cons s segs)
  from Cons.prems(2) have ns: "CHR ''/'' \<notin> set s" and rest: "list_all (\<lambda>s. CHR ''/'' \<notin> set s) segs"
    by simp_all
  consider (skip) "s = [] \<or> s = ''.''" | (up) "s = ''..''" | (seg) "proper_segment s"
    using ns by (auto simp: proper_segment_def)
  then show ?case
  proof cases
    case skip
    then show ?thesis using Cons.IH[OF Cons.prems(1) rest] by auto
  next
    case up
    show ?thesis
    proof (cases "res \<noteq> [] \<and> last res \<noteq> ''..''")
      case True
      with up show ?thesis using Cons.IH[OF proper_butlast[OF Cons.prems(1)] rest] by simp
    next
      case False
      with up show ?thesis using Cons.IH[OF Cons.prems(1) rest] by auto
    qed
  next
    case seg
    then have "list_all proper_segment (res @ [s])" using Cons.prems(1) by simp
    from Cons.IH[OF this rest] seg show ?thesis by (simp add: proper_segment_def)
  qed
qed

lemma split_slash_all_no_slash: "list_all (\<lambda>s. CHR ''/'' \<notin> set s) (split_slash p)"
  by (auto simp: list_all_iff dest: split_slash_no_slash)

lemma join_segments_snoc:
  "ps \<noteq> [] \<Longrightarrow> join_segments (ps @ [b]) = join_segments ps @ CHR ''/'' # b"
  by (induction ps rule: join_segments.induct) simp_all

lemma join_segments_empty: "list_all proper_segment ps \<Longrightarrow> join_segments ps = [] \<longleftrightarrow> ps = []"
  by (induction ps rule: join_segments.induct) (simp_all add: proper_segment_def)

lemma split_join_segments:
  "list_all proper_segment ps \<Longrightarrow> ps \<noteq> [] \<Longrightarrow> split_slash (join_segments ps) = ps"
proof (induction ps rule: join_segments.induct)
  case (2 s)
  then show ?case by (simp add: split_slash_single proper_segment_def)
next
  case (3 s t ss)
  then show ?case
    by (simp add: split_slash_append split_slash_single proper_segment_def)
qed simp

lemma last_join_segments:
  "list_all proper_segment ps \<Longrightarrow> ps \<noteq> [] \<Longrightarrow> last (join_segments ps) \<noteq> CHR ''/''"
proof (induction ps rule: join_segments.induct)
  case (2 s)
  then show ?case by (cases s rule: rev_cases) (auto simp: proper_segment_def)
next
  case (3 s t ss)
  then have "join_segments (t # ss) \<noteq> []"
    using join_segments_empty[of "t # ss"] by simp
  with 3 show ?case by simp
qed simp

text \<open>An absolute path with proper segments and a proper segment joined to it.\<close>

lemma path_join_proper:
  assumes ps: "list_all proper_segment ps" "ps \<noteq> []" and b: "proper_segment b"
  shows "path_join (CHR ''/'' # join_segments ps) b = CHR ''/'' # join_segments ps @ CHR ''/'' # b"
proof -
  let ?d = "CHR ''/'' # join_segments ps"
  from b have bne: "b \<noteq> []" and bs: "CHR ''/'' \<notin> set b" by (simp_all add: proper_segment_def)
  have split: "split_slash (?d @ CHR ''/'' # b) = [] # ps @ [b]"
    using split_slash_append[of ?d b] split_join_segments[OF ps] split_slash_single[OF bs]
    by (simp add: Let_def)
  have all: "list_all proper_segment (ps @ [b])" using ps b by simp
  have norm: "normalizeString False (split_slash (?d @ CHR ''/'' # b)) [] = ps @ [b]"
    unfolding split using normalizeString_proper[OF all, of False "[]"] by simp
  have ne: "join_segments (ps @ [b]) \<noteq> []"
    using join_segments_empty[OF all] by simp
  have lastb: "last b \<noteq> CHR ''/''" using bne bs by (cases b rule: rev_cases) auto
  have "normalize (?d @ CHR ''/'' # b) = CHR ''/'' # join_segments (ps @ [b])"
    using norm ne lastb bne by (simp add: normalize_def Let_def)
  then show ?thesis
    using bne join_segments_snoc[OF ps(2), of b] by (simp add: path_join_def)
qed

text \<open>The results directory of an absolute workspace root.\<close>

lemma resultsDir_shape:
  assumes "workspaceRoot = CHR ''/'' # r"
  shows "\<exists>ps. list_all proper_segment ps \<and> ps \<noteq> [] \<and>
     path_join workspaceRoot ''.niobium_results'' = CHR ''/'' # join_segments ps"
proof -
  let ?n = "normalizeString False (split_slash workspaceRoot) []"
  let ?ps = "?n @ [''.niobium_results'']"
  have pn: "list_all proper_segment ?n"
    by (rule normalizeString_keeps_proper) (simp_all add: split_slash_all_no_slash)
  have pr: "proper_segment ''.niobium_results''" by (simp add: proper_segment_def)
  have all: "list_all proper_segment ?ps" using pn pr by simp
  have split: "split_slash (workspaceRoot @ CHR ''/'' # ''.niobium_results'') =
      split_slash workspaceRoot @ [''.niobium_results'']"
    using split_slash_append[of workspaceRoot "''.niobium_results''"]
      split_slash_single[of "''.niobium_results''"] by simp
  have norm: "normalizeString False (split_slash (workspaceRoot @ CHR ''/'' # ''.niobium_results'')) [] = ?ps"
    unfolding split normalizeString_append by simp
  have ne: "join_segments ?ps \<noteq> []" using join_segments_empty[OF all] by simp
  have "normalize (workspaceRoot @ CHR ''/'' # ''.niobium_results'') = CHR ''/'' # join_segments ?ps"
    using norm ne assms by (simp add: normalize_def Let_def)
  then have "path_join workspaceRoot ''.niobium_results'' = CHR ''/'' # join_segments ?ps"
    using assms by (simp add: path_join_def)
  with all show ?thesis by blast
qed

lemma saveOutputToFile_substituted:
  assumes "output_file c = Some f" "f \<noteq> []"
    and "processVariables env variables f = Inr substituted"
  shows "\<exists>content.
     saveOutputToFile env variables c out workspaceRoot None =
       (let resultsDir = path_join workspaceRoot ''.niobium_results'';
            path = path_join resultsDir (basename (strip_trailing_periods substituted))
        in (if existsSync env resultsDir then [] else [Mkdir resultsDir]) @
           (if shouldIgnorePath env (path_relative env workspaceRoot path) workspaceRoot then []
            else [WriteFile path content])) \<and>
     (\<not> endsWith (basename (strip_trailing_periods substituted)) ''.json'' \<longrightarrow> content = out)"
  using assms by (auto simp: saveOutputToFile_def Let_def split: option.splits sum.splits)

text \<open>
  C10. For a command with an output file, \<^verbatim>\<open>saveOutputToFile\<close> as \<^verbatim>\<open>runCommand\<close> calls it
  does nothing when the substitution of the file name throws. Otherwise it creates the
  results directory when that does not exist, and no other directory; then, unless the
  path is ignored, it writes one file, whose path is the results directory joined with
  the basename of the substituted file name without its trailing periods, and whose
  content is the output when the basename does not end in \<^verbatim>\<open>.json\<close>. It writes nothing
  else. That basename has no slash, and when it names a file the path is the results
  directory, a slash and the basename: the file lies in the results directory itself.
\<close>

theorem output_file_path:
  assumes f: "output_file c = Some f" "f \<noteq> []" and root: "workspaceRoot = CHR ''/'' # r"
    and dir: "resultsDir = path_join workspaceRoot ''.niobium_results''"
    and made: "made = (if existsSync env resultsDir then [] else [Mkdir resultsDir])"
  shows "(\<forall>e. processVariables env variables f = Inl e \<longrightarrow>
            saveOutputToFile env variables c out workspaceRoot None = []) \<and>
         (\<forall>substituted base.
            processVariables env variables f = Inr substituted \<and>
            base = basename (strip_trailing_periods substituted) \<longrightarrow>
            (if shouldIgnorePath env (path_relative env workspaceRoot (path_join resultsDir base))
                  workspaceRoot
             then saveOutputToFile env variables c out workspaceRoot None = made
             else \<exists>content.
                    saveOutputToFile env variables c out workspaceRoot None =
                      made @ [WriteFile (path_join resultsDir base) content] \<and>
                    (\<not> endsWith base ''.json'' \<longrightarrow> content = out)) \<and>
            CHR ''/'' \<notin> set base \<and>
            (proper_segment base \<longrightarrow> path_join resultsDir base = resultsDir @ CHR ''/'' # base))"
proof (intro conjI impI allI)
  fix e assume "processVariables env variables f = Inl e"
  with f show "saveOutputToFile env variables c out workspaceRoot None = []"
    by (simp add: saveOutputToFile_def Let_def)
next
  fix substituted base
  assume h: "processVariables env variables f = Inr substituted \<and>
            base = basename (strip_trailing_periods substituted)"
  then have sub: "processVariables env variables f = Inr substituted"
    and base: "base = basename (strip_trailing_periods substituted)" by simp_all
  from saveOutputToFile_substituted[OF f sub, of out workspaceRoot]
  show "if shouldIgnorePath env (path_relative env workspaceRoot (path_join resultsDir base))
                  workspaceRoot
             then saveOutputToFile env variables c out workspaceRoot None = made
             else \<exists>content.
                    saveOutputToFile env variables c out workspaceRoot None =
                      made @ [WriteFile (path_join resultsDir base) content] \<and>
                    (\<not> endsWith base ''.json'' \<longrightarrow> content = out)"
    unfolding base dir made by (auto simp: Let_def)
  show "CHR ''/'' \<notin> set base" unfolding base by (rule basename_no_slash)
  assume p: "proper_segment base"
  from resultsDir_shape[OF root] obtain ps where ps: "list_all proper_segment ps" "ps \<noteq> []"
    and eq: "resultsDir = CHR ''/'' # join_segments ps" unfolding dir by blast
  from path_join_proper[OF ps p] show "path_join resultsDir base = resultsDir @ CHR ''/'' # base"
    unfolding eq by simp
qed

lemma report_substituted:
  "processVariables demo_platform [(''NAME'', ''scan'')] ''reports/${NAME}.txt..'' =
     Inr ''reports/scan.txt..''"
  by (simp add: processVariables_def replace_each_def replace_braced_def replace_bare_def
      name_atoms_def name_atom_def is_syntax_char_def braced_atoms_def bare_atoms_def
      previous_def word_boundary_def is_word_char_def)

lemma report_base: "basename (strip_trailing_periods ''reports/scan.txt..'') = ''scan.txt''"
  by (simp add: strip_trailing_periods_def basename_def)

lemma demo_resultsDir: "path_join ''/ws'' ''.niobium_results'' = ''/ws/.niobium_results''"
  by (simp add: path_join_def normalize_def Let_def)

lemma demo_platform_simps:
  "existsSync demo_platform p" "\<not> shouldIgnorePath demo_platform p root"
  by (simp_all add: demo_platform_def shouldIgnorePath_def Let_def)

theorem output_file_path_witness:
  "output_file report_command = Some ''reports/${NAME}.txt..'' \<and> ''reports/${NAME}.txt..'' \<noteq> [] \<and>
   ''/ws'' = CHR ''/'' # ''ws'' \<and>
   processVariables demo_platform [(''NAME'', ''scan'')] ''reports/${NAME}.txt..'' =
     Inr ''reports/scan.txt..'' \<and>
   basename (strip_trailing_periods ''reports/scan.txt..'') = ''scan.txt'' \<and>
   proper_segment ''scan.txt'' \<and>
   \<not> shouldIgnorePath demo_platform
       (path_relative demo_platform ''/ws'' ''/ws/.niobium_results/scan.txt'') ''/ws'' \<and>
   saveOutputToFile demo_platform [(''NAME'', ''scan'')] report_command ''text'' ''/ws'' None =
     [WriteFile ''/ws/.niobium_results/scan.txt'' ''text'']"
proof -
  have h1: "output_file report_command = Some ''reports/${NAME}.txt..''"
    by (simp add: report_command_def plain_command_def)
  have h2: "''reports/${NAME}.txt..'' \<noteq> []" by simp
  have h3: "''/ws'' = CHR ''/'' # ''ws''" by simp
  have h4: "proper_segment ''scan.txt''" by (simp add: proper_segment_def)
  have h5: "[] = (if existsSync demo_platform ''/ws/.niobium_results'' then []
                  else [Mkdir ''/ws/.niobium_results''])"
    by (simp add: demo_platform_simps)
  have h6: "\<not> shouldIgnorePath demo_platform
       (path_relative demo_platform ''/ws'' ''/ws/.niobium_results/scan.txt'') ''/ws''"
    by (rule demo_platform_simps)
  have e: "\<not> endsWith ''scan.txt'' ''.json''" by (simp add: endsWith_def)
  note whole = output_file_path[OF h1 h2 h3 demo_resultsDir[symmetric] h5,
      of "[(''NAME'', ''scan'')]" "''text''"]
  note some = whole[THEN conjunct2, rule_format, OF conjI, OF report_substituted
      report_base[symmetric]]
  from some[THEN conjunct2, THEN conjunct2] h4
  have p: "path_join ''/ws/.niobium_results'' ''scan.txt'' = ''/ws/.niobium_results/scan.txt''"
    by simp
  from some[THEN conjunct1] h6 e
  have "saveOutputToFile demo_platform [(''NAME'', ''scan'')] report_command ''text'' ''/ws'' None =
     [WriteFile ''/ws/.niobium_results/scan.txt'' ''text'']"
    unfolding p by auto
  with h1 h2 h3 report_substituted report_base h4 h6 show ?thesis by (intro conjI)
qed

lemma json_example:
  \<open>jsonContent ''Log: ok {"a":1,"b":[2,3]} trailing'' = Some ''{"a":1,"b":[2,3]}''\<close>
  by (simp add: jsonContent_def startPos_def indexOf_int_def charAt_def Let_def)

lemma json_array_missed: "jsonContent ''Result: [1,2]'' = None"
  by (simp add: jsonContent_def startPos_def indexOf_int_def charAt_def Let_def)

lemma json_array_first: "jsonContent ''[1,2] done'' = Some ''[1,2]''"
  by (simp add: jsonContent_def startPos_def indexOf_int_def charAt_def Let_def)

lemma json_base: "basename (strip_trailing_periods ''r.json'') = ''r.json''"
  by (simp add: strip_trailing_periods_def basename_def)

lemma no_variables: "processVariables env [] t = Inr t"
  by (simp add: processVariables_def replace_each_def)

lemma json_path: "path_join ''/ws/.niobium_results'' ''r.json'' = ''/ws/.niobium_results/r.json''"
  by (simp add: path_join_def normalize_def Let_def)

lemma json_command_file: "output_file json_command = Some ''r.json''"
  by (simp add: json_command_def plain_command_def)

lemma json_save:
  "saveOutputToFile demo_platform [] json_command out ''/ws'' None =
     (case jsonContent out of
        None \<Rightarrow> [WriteFile ''/ws/.niobium_results/r.json'' out]
      | Some content \<Rightarrow>
          (case json_parse demo_platform content of
             None \<Rightarrow> [WriteFile ''/ws/.niobium_results/r.json'' out]
           | Some parsedJson \<Rightarrow>
               [WriteFile ''/ws/.niobium_results/r.json'' (json_stringify demo_platform parsedJson)]))"
  by (simp add: saveOutputToFile_def json_command_file no_variables json_base demo_resultsDir
      json_path demo_platform_simps endsWith_def Let_def split: option.splits)

text \<open>
  C6 fails on the code: for an output file ending in \<^verbatim>\<open>.json\<close>, the captured text
  \<^verbatim>\<open>Result: [1,2]\<close> holds the balanced span \<^verbatim>\<open>[1,2]\<close>, which parses, and yet the raw text is
  written. \<^verbatim>\<open>Math.max(0, output.indexOf('{'))\<close> is 0 when there is no brace, so the start
  is position 0 and no bracket of the kind of the first character is ever counted. The
  same array at the start of the text is found and written pretty-printed.
\<close>

theorem json_array_after_text_saved_raw:
  "saveOutputToFile demo_platform [] json_command ''Result: [1,2]'' ''/ws'' None =
     [WriteFile ''/ws/.niobium_results/r.json'' ''Result: [1,2]''] \<and>
   saveOutputToFile demo_platform [] json_command ''[1,2] done'' ''/ws'' None =
     [WriteFile ''/ws/.niobium_results/r.json''
        (''['' @ [CHR 0x0A] @ ''  1,'' @ [CHR 0x0A] @ ''  2'' @ [CHR 0x0A] @ '']'')]"
  by (simp add: json_save json_array_missed json_array_first) (simp add: demo_platform_def)

text \<open>The example of the spec with an object after a log text: the object is written pretty-printed.\<close>

lemma json_object_example_saved_pretty:
  \<open>saveOutputToFile demo_platform [] json_command ''Log: ok {"a":1,"b":[2,3]} trailing'' ''/ws'' None =
     [WriteFile ''/ws/.niobium_results/r.json''
        (''{'' @ [CHR 0x0A] @ ''  "a": 1,'' @ [CHR 0x0A] @ ''  "b": ['' @ [CHR 0x0A] @ ''    2,'' @ [CHR 0x0A]
          @ ''    3'' @ [CHR 0x0A] @ ''  ]'' @ [CHR 0x0A] @ ''}'')]\<close>
  by (simp add: json_save json_example) (simp add: demo_platform_def)
section \<open>Properties of the termination\<close>

lemma seq_Inr: "fst r = Inr x \<Longrightarrow> seq r k = k x (snd r)"
  by (simp add: seq_def)

lemma seq_pair [simp]: "seq (Inr x, h) k = k x h"
  by (simp add: seq_def)

lemma try_catch_Inr: "\<exists>x. fst (try_catch r d) = Inr x"
  by (cases "fst r") (simp_all add: try_catch_def)

lemma try_catch_snd [simp]: "snd (try_catch r d) = snd r"
  by (cases "fst r") (simp_all add: try_catch_def)

lemma try_catch_unit [simp]: "try_catch r () = (Inr (), snd r)"
  by (cases "fst r") (simp_all add: try_catch_def)

lemma signals_append [simp]: "signals (a @ b) = signals a @ signals b"
  by (induction a rule: signals.induct) simp_all

lemma signals_map_Kill [simp]: "signals (map (\<lambda>p. Kill p sig) pids) = map (\<lambda>p. Kill p sig) pids"
  by (induction pids) simp_all

lemma signals_map_Exec [simp]: "signals (map (Exec \<circ> f) xs) = []"
  by (induction xs) simp_all

lemma kill_all_result:
  "kill_all sys sig pids h = (Inr (), h @ map (\<lambda>p. Kill p sig) pids)"
  by (induction pids arbitrary: h) (simp_all add: process_kill_def)

lemma exec_all_result:
  "exec_all sys cmds h = (Inr (), h @ map Exec cmds)"
  by (induction cmds arbitrary: h) (simp_all add: exec_shell_def)

lemma node_cleanup_result:
  "\<exists>t. node_cleanup sys mk cmd h = (Inr (), h @ t) \<and> signals t = []"
  by (auto simp: node_cleanup_def exec_shell_def split: option.splits)

lemma add_pid_set [simp]: "set (add_pid p s) = insert p (set s)"
  by (auto simp: add_pid_def)

lemma add_pid_distinct [simp]: "distinct s \<Longrightarrow> distinct (add_pid p s)"
  by (simp add: add_pid_def)

lemma add_pids_set [simp]: "set (add_pids ps s) = set ps \<union> set s"
  by (induction ps arbitrary: s) (auto simp: add_pids_def)

lemma add_pids_distinct [simp]: "distinct s \<Longrightarrow> distinct (add_pids ps s)"
  by (induction ps arbitrary: s) (simp_all add: add_pids_def)

lemma find_try:
  "\<exists>found. try_catch (findChildProcesses sys pid h) [] = (Inr found, h @ [FindChildProcesses pid])"
  by (cases "children_of sys h pid") (simp_all add: try_catch_def findChildProcesses_def)

lemma add_port_owners_result:
  "distinct allPids \<Longrightarrow>
   \<exists>pids t. add_port_owners sys portInfo allPids h = (Inr pids, h @ t) \<and> signals t = [] \<and>
      distinct pids \<and> set allPids \<subseteq> set pids"
proof (induction portInfo arbitrary: allPids h)
  case Nil
  then show ?case by simp
next
  case (Cons a portInfo)
  obtain port pid where a: "a = (port, pid)" by (cases a)
  show ?case
  proof (cases "pid \<noteq> 0 \<and> pid \<notin> set allPids")
    case True
    obtain found where f: "try_catch (findChildProcesses sys pid h) [] = (Inr found, h @ [FindChildProcesses pid])"
      using find_try by blast
    have d: "distinct (add_pids found (add_pid pid allPids))" using Cons.prems by simp
    from Cons.IH[OF d, of "h @ [FindChildProcesses pid]"] obtain pids t where
      "add_port_owners sys portInfo (add_pids found (add_pid pid allPids)) (h @ [FindChildProcesses pid])
         = (Inr pids, (h @ [FindChildProcesses pid]) @ t)" "signals t = []" "distinct pids"
      "set (add_pids found (add_pid pid allPids)) \<subseteq> set pids" by blast
    with True a f show ?thesis
      by (intro exI[of _ pids] exI[of _ "FindChildProcesses pid # t"]) auto
  next
    case False
    from Cons.IH[OF Cons.prems, of h] False a show ?thesis by auto
  qed
qed

lemma target_pids_result:
  "\<exists>allPids t. target_pids sys pid cmd detectedPorts childPids h = (Inr allPids, h @ t) \<and>
      signals t = [] \<and> distinct allPids \<and> pid \<in> set allPids \<and> set childPids \<subseteq> set allPids"
proof -
  obtain found where f: "try_catch (findChildProcesses sys pid h) [] = (Inr found, h @ [FindChildProcesses pid])"
    using find_try by blast
  let ?all = "add_pids found (add_pids childPids [pid])"
  let ?h1 = "h @ [FindChildProcesses pid]"
  let ?ports = "criticalPorts cmd detectedPorts"
  have d: "distinct ?all" by simp
  show ?thesis
  proof (cases "?ports \<noteq> []")
    case False
    with f show ?thesis
      by (intro exI[of _ ?all] exI[of _ "[FindChildProcesses pid]"]) (auto simp: target_pids_def Let_def)
  next
    case True
    show ?thesis
    proof (cases "ports_in_use sys ?h1 ?ports")
      case (Inl e)
      then have "try_catch (seq (checkPortsInUse sys ?ports ?h1)
                   (\<lambda>portInfo. add_port_owners sys portInfo ?all)) ?all
                 = (Inr ?all, ?h1 @ [CheckPortsInUse ?ports])"
        by (simp add: checkPortsInUse_def seq_def try_catch_def)
      with f True show ?thesis
        by (intro exI[of _ ?all] exI[of _ "[FindChildProcesses pid, CheckPortsInUse ?ports]"])
           (auto simp: target_pids_def Let_def)
    next
      case (Inr portInfo)
      from add_port_owners_result[OF d, of sys portInfo "?h1 @ [CheckPortsInUse ?ports]"]
      obtain pids t where p:
        "add_port_owners sys portInfo ?all (?h1 @ [CheckPortsInUse ?ports])
           = (Inr pids, (?h1 @ [CheckPortsInUse ?ports]) @ t)"
        "signals t = []" "distinct pids" "set ?all \<subseteq> set pids" by blast
      with Inr have "try_catch (seq (checkPortsInUse sys ?ports ?h1)
                   (\<lambda>portInfo. add_port_owners sys portInfo ?all)) ?all
                 = (Inr pids, (?h1 @ [CheckPortsInUse ?ports]) @ t)"
        by (simp add: checkPortsInUse_def seq_def try_catch_def)
      with f True p show ?thesis
        by (intro exI[of _ pids] exI[of _ "FindChildProcesses pid # CheckPortsInUse ?ports # t"])
           (auto simp: target_pids_def Let_def)
    qed
  qed
qed

text \<open>
  C8. \<^verbatim>\<open>killProcessAndChildren\<close> never throws, whatever the operating system answers
  and whichever of its calls throw. On POSIX, for a command with a pid, the signals it
  sends are \<^verbatim>\<open>SIGTERM\<close> to every target, after a pause of 500 ms \<^verbatim>\<open>SIGKILL\<close> to every
  target, in the same order; the targets are distinct and hold the pid of the command
  and the child pids known.
\<close>

theorem graduated_termination:
  "fst (killProcessAndChildren sys win32 childPid cmd detectedPorts childPids h) = Inr () \<and>
   (\<forall>pid. childPid = Some pid \<and> pid \<noteq> 0 \<and> \<not> win32 \<longrightarrow>
      (\<exists>allPids t. fst (target_pids sys pid cmd detectedPorts childPids h) = Inr allPids \<and>
         distinct allPids \<and> pid \<in> set allPids \<and> set childPids \<subseteq> set allPids \<and>
         snd (killProcessAndChildren sys win32 childPid cmd detectedPorts childPids h) = h @ t \<and>
         signals t = map (\<lambda>p. Kill p SIGTERM) allPids @ [Sleep 500]
                       @ map (\<lambda>p. Kill p SIGKILL) allPids))"
proof (cases childPid)
  case None
  then show ?thesis by (simp add: killProcessAndChildren_def)
next
  case (Some pid)
  show ?thesis
  proof (cases "pid = 0")
    case True
    with Some show ?thesis by (auto simp: killProcessAndChildren_def)
  next
    case False
    from target_pids_result[of sys pid cmd detectedPorts childPids h] obtain allPids t0 where
      tp: "target_pids sys pid cmd detectedPorts childPids h = (Inr allPids, h @ t0)"
      and t0: "signals t0 = []" and props: "distinct allPids" "pid \<in> set allPids"
        "set childPids \<subseteq> set allPids" by blast
    show ?thesis
    proof (cases win32)
      case True
      obtain t where nc: "node_cleanup sys TaskkillNode cmd ((h @ t0) @ map Exec (map Taskkill allPids))
          = (Inr (), ((h @ t0) @ map Exec (map Taskkill allPids)) @ t)"
        using node_cleanup_result by blast
      with Some False True tp show ?thesis
        by (auto simp: killProcessAndChildren_def exec_all_result)
    next
      case nw: False
      let ?h4 = "(((h @ t0) @ map (\<lambda>p. Kill p SIGTERM) allPids) @ [Sleep 500])
                   @ map (\<lambda>p. Kill p SIGKILL) allPids"
      let ?h5 = "?h4 @ map Exec (map LsofKill detectedPorts)"
      obtain t where nc: "node_cleanup sys Pkill cmd ?h5 = (Inr (), ?h5 @ t)" and nt: "signals t = []"
        using node_cleanup_result by blast
      have run: "killProcessAndChildren sys win32 childPid cmd detectedPorts childPids h =
          (Inr (), (?h5 @ t) @ map Exec (map LsofKillForced (criticalPorts cmd detectedPorts)))"
        using Some False nw tp nc
        by (simp add: killProcessAndChildren_def exec_all_result kill_all_result sleep_def)
      have "signals (t0 @ map (\<lambda>p. Kill p SIGTERM) allPids @ [Sleep 500]
                @ map (\<lambda>p. Kill p SIGKILL) allPids @ map Exec (map LsofKill detectedPorts) @ t
                @ map Exec (map LsofKillForced (criticalPorts cmd detectedPorts)))
            = map (\<lambda>p. Kill p SIGTERM) allPids @ [Sleep 500] @ map (\<lambda>p. Kill p SIGKILL) allPids"
        using t0 nt by simp
      with run tp props Some show ?thesis
        by (intro conjI allI impI)
           (simp, intro exI[of _ allPids] exI[of _ "t0 @ map (\<lambda>p. Kill p SIGTERM) allPids @ [Sleep 500]
                @ map (\<lambda>p. Kill p SIGKILL) allPids @ map Exec (map LsofKill detectedPorts) @ t
                @ map Exec (map LsofKillForced (criticalPorts cmd detectedPorts))"], simp)
    qed
  qed
qed

lemma demo_kill:
  "snd (killProcessAndChildren demo_os False (Some 5) ''npm run dev'' [] [6] []) =
     [FindChildProcesses 5, CheckPortsInUse [5173],
      Kill 5 SIGTERM, Kill 6 SIGTERM, Sleep 500, Kill 5 SIGKILL, Kill 6 SIGKILL,
      Exec (Pkill ''dev''), Exec (LsofKillForced 5173)]"
  by (simp add: killProcessAndChildren_def target_pids_def demo_os_def findChildProcesses_def
      checkPortsInUse_def try_catch_def seq_def criticalPorts_def add_pids_def add_pid_def
      process_kill_def exec_shell_def sleep_def node_cleanup_def word_after_def Let_def
      is_white_space_def is_word_char_def)

theorem graduated_termination_witness:
  "Some (5::nat) = Some 5 \<and> (5::nat) \<noteq> 0 \<and> \<not> False \<and>
   fst (killProcessAndChildren demo_os False (Some 5) ''npm run dev'' [] [6] []) = Inr () \<and>
   signals (snd (killProcessAndChildren demo_os False (Some 5) ''npm run dev'' [] [6] [])) =
     [Kill 5 SIGTERM, Kill 6 SIGTERM, Sleep 500, Kill 5 SIGKILL, Kill 6 SIGKILL]"
proof -
  from graduated_termination[of demo_os False "Some 5" "''npm run dev''" "[]" "[6]" "[]"]
  have "fst (killProcessAndChildren demo_os False (Some 5) ''npm run dev'' [] [6] []) = Inr ()"
    by blast
  then show ?thesis by (simp add: demo_kill)
qed
section \<open>Properties of running a command\<close>

lemma command_failed_result:
  "returned_result (command_failed env sink variables c root e) =
     Fulfilled \<lparr>success = False, output = or_else (err_stdout e) [],
                error = Some (or_else (err_stderr e) (err_text e)),
                exitCode = Some (code_or_1 (err_code e))\<rparr>"
  by (simp add: command_failed_def Let_def)

text \<open>
  A process task whose substitution does not throw and that is not canceled returns a
  result: a success for exit code 0, and a failure with the exit code and the text of
  standard error for any other exit code.
\<close>

lemma process_command_returns:
  assumes task: "or_else (image c) [] = []" and live: "\<not> (sink \<and> killRequested)"
    and sub: "processVariables env variables (command c) = Inr processedCommand"
    and dir: "\<not> shouldIgnorePath env
        (if or_else (cwd c) [] \<noteq> [] then resolve root (or_else (cwd c) []) else root) root"
  shows "\<exists>r. returned_result
              (runCommand env resolve sink killRequested docker child variables c root) =
            Fulfilled r \<and>
     (\<forall>stdout stderr. child = Closed (Some 0) stdout stderr \<and>
        snd (extractOutputVariables env c stdout variables) = None \<longrightarrow>
        success r \<and> output r = stdout \<and> exitCode r = Some (ExitNumber 0) \<and> error r = None) \<and>
     (\<forall>code stdout stderr. child = Closed (Some code) stdout stderr \<and> code \<noteq> 0 \<longrightarrow>
        \<not> success r \<and> exitCode r = Some (ExitNumber code) \<and> output r = stdout \<and>
        error r = Some (if stderr = [] then ''Error: Command failed with exit code '' @ show_int code
                        else stderr)) \<and>
     (\<forall>message code. child = ChildError message code \<longrightarrow> \<not> success r)"
proof (cases child)
  case (Closed code stdout stderr)
  show ?thesis
  proof (cases "code = Some 0")
    case True
    obtain extracted thrown where
      ex: "extractOutputVariables env c stdout variables = (extracted, thrown)"
      by (cases "extractOutputVariables env c stdout variables")
    with task live sub dir Closed True show ?thesis
      by (cases thrown) (auto simp: runCommand_def Let_def command_failed_result)
  next
    case False
    with task live sub dir Closed show ?thesis
      by (auto simp: runCommand_def Let_def command_failed_def exit_error_def or_else_def
          code_or_1_def)
  qed
next
  case (ChildError message code)
  with task live sub dir show ?thesis
    by (auto simp: runCommand_def Let_def command_failed_def)
qed

text \<open>
  C7 fails on the code. A process task that is canceled through the kill handler of the
  status sink never returns: the handler of \<^verbatim>\<open>close\<close> returns without resolving or
  rejecting the promise of the child, so the \<^verbatim>\<open>await\<close> never ends and the promise of
  \<^verbatim>\<open>runCommand\<close> never settles, while the job is marked failed with exit code 130. The
  same child without a kill request gives a failed result.
\<close>

theorem canceled_command_never_returns:
  "returned_result (runCommand demo_platform (\<lambda>root dir. dir) True True (\<lambda>c. Rejected [])
      (Closed None ''listening on 3000'' []) [] (plain_command ''serve'') ''/ws'') = NeverSettles \<and>
   commandJob (runCommand demo_platform (\<lambda>root dir. dir) True True (\<lambda>c. Rejected [])
      (Closed None ''listening on 3000'' []) [] (plain_command ''serve'') ''/ws'')
     = Some (JobFailed, Some 130) \<and>
   returned_result (runCommand demo_platform (\<lambda>root dir. dir) True False (\<lambda>c. Rejected [])
      (Closed None ''listening on 3000'' []) [] (plain_command ''serve'') ''/ws'')
     = Fulfilled \<lparr>success = False, output = ''listening on 3000'',
                  error = Some ''Error: Command failed with exit code null'',
                  exitCode = Some (ExitNumber 1)\<rparr>"
  by (simp add: runCommand_def plain_command_def or_else_def shouldIgnorePath_def
      demo_platform_def Let_def command_failed_def exit_error_def code_or_1_def no_variables)

end
